theory Spec2Isabelle
  imports Main "HOL-Library.Word" "HOL-Library.List_Lexorder" "HOL-Library.Multiset"
begin

section \<open>JavaScript strings and byte sequences\<close>

text \<open>
  A JavaScript string is a sequence of 16-bit code units; a Buffer is a sequence of
  bytes. String comparison (\<open><\<close>, \<open>===\<close>) and \<open>URLSearchParams.sort\<close> work on
  code units, \<open>createHmac(...).update(string)\<close> and the form-urlencoded wire format
  work on the UTF-8 bytes of the string.
\<close>

type_synonym jsstring = "16 word list"
type_synonym bytes = "8 word list"

text \<open>An ASCII literal of the source as a JavaScript string.\<close>

definition js :: "string \<Rightarrow> jsstring" where
  "js s = map of_char s"

subsection \<open>UTF-16: code units to Unicode scalar values\<close>

definition scalar :: "nat \<Rightarrow> bool" where
  "scalar c = (c < 0xD800 \<or> (0xE000 \<le> c \<and> c < 0x110000))"

definition is_high :: "16 word \<Rightarrow> bool" where
  "is_high u = (0xD800 \<le> unat u \<and> unat u \<le> 0xDBFF)"

definition is_low :: "16 word \<Rightarrow> bool" where
  "is_low u = (0xDC00 \<le> unat u \<and> unat u \<le> 0xDFFF)"

text \<open>A code unit on its own: a lone surrogate reads as U+FFFD.\<close>

definition lone :: "16 word \<Rightarrow> nat" where
  "lone u = (if is_high u \<or> is_low u then 0xFFFD else unat u)"

fun utf16_decode :: "jsstring \<Rightarrow> nat list" where
  "utf16_decode [] = []"
| "utf16_decode [u] = [lone u]"
| "utf16_decode (u # v # r) =
     (if is_high u \<and> is_low v
      then (0x10000 + (unat u - 0xD800) * 0x400 + (unat v - 0xDC00)) # utf16_decode r
      else lone u # utf16_decode (v # r))"

definition utf16_enc_cp :: "nat \<Rightarrow> jsstring" where
  "utf16_enc_cp c =
     (if c < 0x10000 then [of_nat c]
      else [of_nat (0xD800 + (c - 0x10000) div 0x400), of_nat (0xDC00 + (c - 0x10000) mod 0x400)])"

definition utf16_encode :: "nat list \<Rightarrow> jsstring" where
  "utf16_encode cs = concat (map utf16_enc_cp cs)"

text \<open>
  Conversion to a USVString (what \<open>URLSearchParams\<close> applies to every string it is
  given): lone surrogates are replaced by U+FFFD.
\<close>

definition to_usv :: "jsstring \<Rightarrow> jsstring" where
  "to_usv s = utf16_encode (utf16_decode s)"

definition well_formed :: "jsstring \<Rightarrow> bool" where
  "well_formed s = (to_usv s = s)"

text \<open>
  The same, read from left to right: \<open>paired True\<close> is the state after a high
  surrogate, which a low surrogate must follow.
\<close>

fun paired :: "bool \<Rightarrow> jsstring \<Rightarrow> bool" where
  "paired pending [] = (\<not> pending)"
| "paired pending (u # r) =
     (if pending then is_low u \<and> paired False r
      else if is_high u then paired True r
      else \<not> is_low u \<and> paired False r)"

subsection \<open>UTF-8\<close>

definition utf8_enc_cp :: "nat \<Rightarrow> bytes" where
  "utf8_enc_cp c =
     (if c < 0x80 then [of_nat c]
      else if c < 0x800 then [of_nat (0xC0 + c div 64), of_nat (0x80 + c mod 64)]
      else if c < 0x10000 then
        [of_nat (0xE0 + c div 4096), of_nat (0x80 + (c div 64) mod 64), of_nat (0x80 + c mod 64)]
      else
        [of_nat (0xF0 + c div 262144), of_nat (0x80 + (c div 4096) mod 64),
         of_nat (0x80 + (c div 64) mod 64), of_nat (0x80 + c mod 64)])"

text \<open>The bytes \<open>Buffer.from(s, 'utf8')\<close> holds: what an HMAC is fed for a string.\<close>

definition utf8 :: "jsstring \<Rightarrow> bytes" where
  "utf8 s = concat (map utf8_enc_cp (utf16_decode s))"

text \<open>
  The lossy UTF-8 decoder of the Encoding Standard ("UTF-8 decode without BOM"), on
  byte values: a byte that cannot start or continue a sequence ends the sequence read
  so far, which decodes to U+FFFD, and is read again as a first byte.
\<close>

definition lower3 :: "nat \<Rightarrow> nat" where
  "lower3 b = (if b = 0xE0 then 0xA0 else 0x80)"

definition upper3 :: "nat \<Rightarrow> nat" where
  "upper3 b = (if b = 0xED then 0x9F else 0xBF)"

definition lower4 :: "nat \<Rightarrow> nat" where
  "lower4 b = (if b = 0xF0 then 0x90 else 0x80)"

definition upper4 :: "nat \<Rightarrow> nat" where
  "upper4 b = (if b = 0xF4 then 0x8F else 0xBF)"

definition cont :: "nat \<Rightarrow> bool" where
  "cont c = (0x80 \<le> c \<and> c \<le> 0xBF)"

fun utf8_decode :: "nat list \<Rightarrow> nat list" where
  "utf8_decode [] = []"
| "utf8_decode (b # bs) =
     (if b < 0x80 then b # utf8_decode bs
      else if 0xC2 \<le> b \<and> b \<le> 0xDF then
        (case bs of
           [] \<Rightarrow> [0xFFFD]
         | c # cs \<Rightarrow>
             if cont c then ((b - 0xC0) * 64 + (c - 0x80)) # utf8_decode cs
             else 0xFFFD # utf8_decode bs)
      else if 0xE0 \<le> b \<and> b \<le> 0xEF then
        (case bs of
           [] \<Rightarrow> [0xFFFD]
         | c # cs \<Rightarrow>
             if lower3 b \<le> c \<and> c \<le> upper3 b then
               (case cs of
                  [] \<Rightarrow> [0xFFFD]
                | d # ds \<Rightarrow>
                    if cont d
                    then ((b - 0xE0) * 4096 + (c - 0x80) * 64 + (d - 0x80)) # utf8_decode ds
                    else 0xFFFD # utf8_decode cs)
             else 0xFFFD # utf8_decode bs)
      else if 0xF0 \<le> b \<and> b \<le> 0xF4 then
        (case bs of
           [] \<Rightarrow> [0xFFFD]
         | c # cs \<Rightarrow>
             if lower4 b \<le> c \<and> c \<le> upper4 b then
               (case cs of
                  [] \<Rightarrow> [0xFFFD]
                | d # ds \<Rightarrow>
                    if cont d then
                      (case ds of
                         [] \<Rightarrow> [0xFFFD]
                       | e # es \<Rightarrow>
                           if cont e
                           then ((b - 0xF0) * 262144 + (c - 0x80) * 4096 + (d - 0x80) * 64
                                 + (e - 0x80)) # utf8_decode es
                           else 0xFFFD # utf8_decode ds)
                    else 0xFFFD # utf8_decode cs)
             else 0xFFFD # utf8_decode bs)
      else 0xFFFD # utf8_decode bs)"

text \<open>Bytes decoded to a JavaScript string.\<close>

definition utf8_to_string :: "bytes \<Rightarrow> jsstring" where
  "utf8_to_string bs = utf16_encode (utf8_decode (map unat bs))"

section \<open>The form-urlencoded wire format\<close>

text \<open>
  \<open>URLSearchParams\<close> is a list of name/value pairs of strings. The handler runs on
  Node.js, whose \<open>URLSearchParams\<close> is written in JavaScript (lib/internal/url.js):
  the parser \<open>parseParams\<close>, which decodes with \<open>querystring.unescape\<close>, and the
  serializer \<open>serializeParams\<close>.
\<close>

type_synonym params = "(jsstring \<times> jsstring) list"

subsection \<open>Decoding a component\<close>

text \<open>
  The tables \<open>isHexTable\<close> and \<open>unhexTable\<close> have 256 entries: a code unit above
  0xFF is not a hexadecimal digit.
\<close>

definition is_hex :: "16 word \<Rightarrow> bool" where
  "is_hex u = ((0x30 \<le> unat u \<and> unat u \<le> 0x39) \<or> (0x41 \<le> unat u \<and> unat u \<le> 0x46)
               \<or> (0x61 \<le> unat u \<and> unat u \<le> 0x66))"

definition hex_val :: "16 word \<Rightarrow> nat" where
  "hex_val u = (if unat u \<le> 0x39 then unat u - 0x30
                else if unat u \<le> 0x46 then unat u - 0x37 else unat u - 0x57)"

definition hex_octet :: "16 word \<Rightarrow> 16 word \<Rightarrow> nat" where
  "hex_octet a b = hex_val a * 16 + hex_val b"

text \<open>
  \<open>decodeURIComponent\<close> (the \<open>Decode\<close> operation of ECMAScript with no reserved
  character); \<open>None\<close> stands for the \<open>URIError\<close> it throws. A code unit other than
  \<open>%\<close> is copied. A \<open>%\<close> must start an escape \<open>%XX\<close>; an octet below 0x80 is a
  character, another octet announces by its leading one bits a sequence of two to four
  octets, each of which must be written as an escape, and the sequence must be the
  UTF-8 encoding of a Unicode scalar value.
\<close>

text \<open>\<open>n\<close> escapes at the head of a string: their octets, and the rest of the string.\<close>

fun escapes :: "nat \<Rightarrow> jsstring \<Rightarrow> (nat list \<times> jsstring) option" where
  "escapes 0 s = Some ([], s)"
| "escapes (Suc n) (p # a # b # r) =
     (if p = 0x25 \<and> is_hex a \<and> is_hex b
      then (case escapes n r of
              None \<Rightarrow> None
            | Some (octets, t) \<Rightarrow> Some (hex_octet a b # octets, t))
      else None)"
| "escapes (Suc n) s = None"

definition sequence_length :: "nat \<Rightarrow> nat option" where
  "sequence_length b =
     (if b < 0x80 then Some 1
      else if 0xC0 \<le> b \<and> b < 0xE0 then Some 2
      else if 0xE0 \<le> b \<and> b < 0xF0 then Some 3
      else if 0xF0 \<le> b \<and> b < 0xF8 then Some 4
      else None)"

text \<open>
  The scalar value a sequence of octets encodes, if it is the UTF-8 encoding of one
  (the shortest one: the scalar value encodes to exactly these octets).
\<close>

definition code_point :: "nat list \<Rightarrow> nat option" where
  "code_point octets =
     (case utf8_decode octets of
        [c] \<Rightarrow> if map unat (utf8_enc_cp c) = octets then Some c else None
      | _ \<Rightarrow> None)"

function decodeURIComponent :: "jsstring \<Rightarrow> jsstring option" where
  "decodeURIComponent [] = Some []"
| "decodeURIComponent (c # s) =
     (if c \<noteq> 0x25 then
        (case decodeURIComponent s of None \<Rightarrow> None | Some t \<Rightarrow> Some (c # t))
      else
        (case escapes 1 (c # s) of
           None \<Rightarrow> None
         | Some (first, _) \<Rightarrow>
             (case sequence_length (hd first) of
                None \<Rightarrow> None
              | Some n \<Rightarrow>
                  (case escapes n (c # s) of
                     None \<Rightarrow> None
                   | Some (octets, r) \<Rightarrow>
                       (case code_point octets of
                          None \<Rightarrow> None
                        | Some cp \<Rightarrow>
                            (case decodeURIComponent r of
                               None \<Rightarrow> None
                             | Some t \<Rightarrow> Some (utf16_enc_cp cp @ t)))))))"
  by pat_completeness auto

termination
proof -
  have len: "escapes n s = Some (octets, r) \<Longrightarrow> length s = length r + 3 * n"
    for n s octets r
    by (induction n s arbitrary: octets r rule: escapes.induct)
      (auto split: if_splits option.splits)
  show ?thesis
    by (relation "measure length")
      (auto dest!: len simp: sequence_length_def split: if_splits)
qed

text \<open>
  \<open>querystring.unescapeBuffer\<close>: an escape \<open>%XX\<close> becomes its octet, a \<open>%\<close> that
  starts no escape is kept, and every other code unit is stored in a byte of the
  Buffer, which keeps its low eight bits.
\<close>

fun unescapeBuffer :: "jsstring \<Rightarrow> bytes" where
  "unescapeBuffer (p # a # b # r) =
     (if p = 0x25 \<and> is_hex a \<and> is_hex b then of_nat (hex_octet a b) # unescapeBuffer r
      else ucast p # unescapeBuffer (a # b # r))"
| "unescapeBuffer s = map ucast s"

text \<open>
  \<open>querystring.unescape\<close>: \<open>decodeURIComponent\<close>, and when that throws, the
  Buffer of \<open>unescapeBuffer\<close> read as UTF-8 (\<open>toString()\<close>).
\<close>

definition unescape :: "jsstring \<Rightarrow> jsstring" where
  "unescape s =
     (case decodeURIComponent s of
        Some t \<Rightarrow> t
      | None \<Rightarrow> utf8_to_string (unescapeBuffer s))"

subsection \<open>The parser\<close>

text \<open>
  The state of the loop of \<open>parseParams\<close>. \<open>buf\<close> holds what the source keeps in
  \<open>buf\<close> and in the slice of the input from \<open>lastPos\<close> to the index \<open>i\<close>, which it
  appends to \<open>buf\<close> before every use. \<open>out_pairs\<close> holds as pairs what the source keeps in
  \<open>out\<close> as names and values in turn: the name pushed at the \<open>=\<close> waits in
  \<open>out_name\<close> for its value.
  \<open>pairEmpty\<close> says that \<open>pairStart\<close> equals \<open>i\<close>.
\<close>

record parser =
  out_pairs :: params
  out_name :: jsstring
  seenSep :: bool
  buf :: jsstring
  encoded :: bool
  encodeCheck :: nat
  pairEmpty :: bool

definition parser_init :: parser where
  "parser_init = \<lparr>out_pairs = [], out_name = [], seenSep = False, buf = [], encoded = False,
     encodeCheck = 0, pairEmpty = True\<rparr>"

text \<open>The component read so far, decoded only if an escape was seen in it.\<close>

definition component :: "parser \<Rightarrow> jsstring" where
  "component st = (if encoded st then unescape (buf st) else buf st)"

text \<open>The end of a pair: a pair without \<open>=\<close> has the empty value.\<close>

definition push_pair :: "parser \<Rightarrow> params" where
  "push_pair st =
     (if seenSep st then out_pairs st @ [(out_name st, component st)]
      else out_pairs st @ [(component st, [])])"

definition parse_step :: "parser \<Rightarrow> 16 word \<Rightarrow> parser" where
  "parse_step st code =
     (if code = 0x26 then
        (if pairEmpty st then st
         else parser_init \<lparr>out_pairs := push_pair st\<rparr>)
      else if \<not> seenSep st \<and> code = 0x3D then
        st \<lparr>out_name := component st, seenSep := True, buf := [], encoded := False,
            encodeCheck := 0, pairEmpty := False\<rparr>
      else if code = 0x2B then
        st \<lparr>buf := buf st @ [0x20], pairEmpty := False\<rparr>
      else if \<not> encoded st then
        (if code = 0x25 then
           st \<lparr>buf := buf st @ [code], encodeCheck := 1, pairEmpty := False\<rparr>
         else if 0 < encodeCheck st then
           (if is_hex code then
              st \<lparr>buf := buf st @ [code], encoded := (encodeCheck st + 1 = 3),
                  encodeCheck := encodeCheck st + 1, pairEmpty := False\<rparr>
            else st \<lparr>buf := buf st @ [code], encodeCheck := 0, pairEmpty := False\<rparr>)
         else st \<lparr>buf := buf st @ [code], pairEmpty := False\<rparr>)
      else st \<lparr>buf := buf st @ [code], pairEmpty := False\<rparr>)"

text \<open>After the loop: nothing is left after a trailing \<open>&\<close>, otherwise a last pair.\<close>

definition parse_finish :: "parser \<Rightarrow> params" where
  "parse_finish st = (if pairEmpty st then out_pairs st else push_pair st)"

text \<open>\<open>parseParams\<close>: the loop starts after one leading \<open>?\<close>.\<close>

definition parseParams :: "jsstring \<Rightarrow> params" where
  "parseParams qs =
     parse_finish (foldl parse_step parser_init
       (case qs of [] \<Rightarrow> [] | c # r \<Rightarrow> if c = 0x3F then r else qs))"

subsection \<open>The parser, pair by pair\<close>

text \<open>
  What the loop computes, piece by piece: the input is split at every \<open>&\<close>, empty
  pieces are dropped, a piece is split at its first \<open>=\<close> (with none, the value is
  empty), and each component is decoded: every \<open>+\<close> becomes a space, and if the
  component, its \<open>+\<close> signs left out, holds an escape \<open>%XX\<close>, it goes through
  \<open>unescape\<close>.
\<close>

fun split_on :: "'a \<Rightarrow> 'a list \<Rightarrow> 'a list list" where
  "split_on d [] = [[]]"
| "split_on d (x # xs) =
     (if x = d then [] # split_on d xs
      else (case split_on d xs of [] \<Rightarrow> [[x]] | piece # pieces \<Rightarrow> (x # piece) # pieces))"

fun escape_seen :: "jsstring \<Rightarrow> bool" where
  "escape_seen (p # a # b # r) = ((p = 0x25 \<and> is_hex a \<and> is_hex b) \<or> escape_seen (a # b # r))"
| "escape_seen s = False"

definition plus_to_space :: "jsstring \<Rightarrow> jsstring" where
  "plus_to_space s = map (\<lambda>u. if u = 0x2B then 0x20 else u) s"

definition decode_component :: "jsstring \<Rightarrow> jsstring" where
  "decode_component c =
     (if escape_seen (filter (\<lambda>u. u \<noteq> 0x2B) c) then unescape (plus_to_space c)
      else plus_to_space c)"

definition parse_pair :: "jsstring \<Rightarrow> jsstring \<times> jsstring" where
  "parse_pair piece =
     (decode_component (takeWhile (\<lambda>u. u \<noteq> 0x3D) piece),
      decode_component (tl (dropWhile (\<lambda>u. u \<noteq> 0x3D) piece)))"

definition parse_pieces :: "jsstring \<Rightarrow> params" where
  "parse_pieces qs = map parse_pair (filter (\<lambda>piece. piece \<noteq> []) (split_on 0x26 qs))"

subsection \<open>The serializer\<close>

text \<open>
  \<open>serializeParams\<close> writes \<open>name=value\<close> for each pair, joined by \<open>&\<close>. \<open>encodeStr\<close>
  leaves ASCII letters and digits, \<open>*\<close>, \<open>-\<close>, \<open>.\<close> and \<open>_\<close> as they are, writes a
  space as \<open>+\<close>, and every other character as the escapes \<open>%XX\<close> (uppercase) of its
  UTF-8 bytes.
\<close>

definition form_safe :: "8 word \<Rightarrow> bool" where
  "form_safe b = ((0x30 \<le> unat b \<and> unat b \<le> 0x39) \<or> (0x41 \<le> unat b \<and> unat b \<le> 0x5A)
                  \<or> (0x61 \<le> unat b \<and> unat b \<le> 0x7A)
                  \<or> b = 0x2A \<or> b = 0x2D \<or> b = 0x2E \<or> b = 0x5F)"

definition upper_hex_digit :: "nat \<Rightarrow> 16 word" where
  "upper_hex_digit n = (if n < 10 then of_nat (0x30 + n) else of_nat (0x37 + n))"

definition encode_byte :: "8 word \<Rightarrow> jsstring" where
  "encode_byte b =
     (if b = 0x20 then [0x2B]
      else if form_safe b then [ucast b]
      else [0x25, upper_hex_digit (unat b div 16), upper_hex_digit (unat b mod 16)])"

definition encodeStr :: "jsstring \<Rightarrow> jsstring" where
  "encodeStr s = concat (map encode_byte (utf8 s))"

definition serialize_pair :: "jsstring \<times> jsstring \<Rightarrow> jsstring" where
  "serialize_pair p = encodeStr (fst p) @ [0x3D] @ encodeStr (snd p)"

fun serializeParams :: "params \<Rightarrow> jsstring" where
  "serializeParams [] = []"
| "serializeParams [p] = serialize_pair p"
| "serializeParams (p # q # r) = serialize_pair p @ [0x26] @ serializeParams (q # r)"

section \<open>The values of a request body\<close>

text \<open>
  \<open>express.json()\<close> hands the handler a parsed JSON text, so \<open>initData\<close> can be any
  JSON value, or \<open>undefined\<close> when the body has no such field. A number is
  represented by its decimal rendering (what \<open>String\<close> gives for it, the only thing
  read from it), an object by its own properties in the order of \<open>Reflect.ownKeys\<close>.
  The nesting depth is not bounded: the stack of the runtime is not modelled.
\<close>

datatype jsvalue =
    Undefined
  | Null
  | Boolean bool
  | Number jsstring
  | Str jsstring
  | Array "jsvalue list"
  | Object "(jsstring \<times> jsvalue) list"

datatype exn = TypeError

text \<open>The first exception of a sequence of computations, or all their results.\<close>

fun sequence :: "(exn + 'a) list \<Rightarrow> exn + 'a list" where
  "sequence [] = Inr []"
| "sequence (x # xs) =
     (case x of
        Inl error \<Rightarrow> Inl error
      | Inr a \<Rightarrow> (case sequence xs of Inl error \<Rightarrow> Inl error | Inr as \<Rightarrow> Inr (a # as)))"

fun join :: "'a list \<Rightarrow> 'a list list \<Rightarrow> 'a list" where
  "join sep [] = []"
| "join sep [x] = x"
| "join sep (x # y # r) = x @ sep @ join sep (y # r)"

text \<open>
  Conversion to a string (\<open>ToString\<close>, as a template literal applies it). An array is
  the conversions of its elements joined by commas, \<open>null\<close> and \<open>undefined\<close> elements
  as the empty string. A plain object converts to \<open>[object Object]\<close> through
  \<open>Object.prototype.toString\<close>; when it has an own property \<open>toString\<close>, which in a
  JSON value is never a function, neither that nor \<open>valueOf\<close> yields a primitive and
  the conversion throws a \<open>TypeError\<close>.
\<close>

fun ToString :: "jsvalue \<Rightarrow> exn + jsstring" where
  "ToString Undefined = Inr (js ''undefined'')"
| "ToString Null = Inr (js ''null'')"
| "ToString (Boolean b) = Inr (if b then js ''true'' else js ''false'')"
| "ToString (Number s) = Inr s"
| "ToString (Str s) = Inr s"
| "ToString (Array xs) =
     (case sequence (map (\<lambda>x. case x of
                                 Undefined \<Rightarrow> Inr []
                               | Null \<Rightarrow> Inr []
                               | _ \<Rightarrow> ToString x) xs) of
        Inl error \<Rightarrow> Inl error
      | Inr strings \<Rightarrow> Inr (join [0x2C] strings))"
| "ToString (Object props) =
     (if js ''toString'' \<in> fst ` set props then Inl TypeError
      else Inr (js ''[object Object]''))"

subsection \<open>The operations of \<open>URLSearchParams\<close> the handler calls\<close>

text \<open>
  \<open>new URLSearchParams(init)\<close>. Nothing for \<open>undefined\<close> and \<open>null\<close>. An array is
  read as a sequence of pairs: each element must be an array of length two, whose
  elements are converted to strings, and anything else throws a \<open>TypeError\<close>. An
  object is read as a record: each property gives a pair, and a name that occurs again
  after the conversion to a USVString replaces the value of the earlier pair. Every
  other value is converted to a string, then to a USVString, and parsed.
\<close>

definition from_string :: "jsstring \<Rightarrow> params" where
  "from_string s = (let init = to_usv s in if init = [] then [] else parseParams init)"

definition from_pair :: "jsvalue \<Rightarrow> exn + jsstring \<times> jsstring" where
  "from_pair pair =
     (case pair of
        Array [n, v] \<Rightarrow>
          (case ToString n of
             Inl error \<Rightarrow> Inl error
           | Inr typedName \<Rightarrow>
               (case ToString v of
                  Inl error \<Rightarrow> Inl error
                | Inr typedValue \<Rightarrow> Inr (to_usv typedName, to_usv typedValue)))
      | _ \<Rightarrow> Inl TypeError)"

fun from_record :: "(jsstring \<times> jsvalue) list \<Rightarrow> params \<Rightarrow> exn + params" where
  "from_record [] acc = Inr acc"
| "from_record ((key, v) # props) acc =
     (case ToString v of
        Inl error \<Rightarrow> Inl error
      | Inr s \<Rightarrow>
          (let typedKey = to_usv key; typedValue = to_usv s
           in from_record props
                (if typedKey \<in> fst ` set acc
                 then map (\<lambda>p. if fst p = typedKey then (typedKey, typedValue) else p) acc
                 else acc @ [(typedKey, typedValue)])))"

definition URLSearchParams :: "jsvalue \<Rightarrow> exn + params" where
  "URLSearchParams init =
     (case init of
        Undefined \<Rightarrow> Inr []
      | Null \<Rightarrow> Inr []
      | Boolean b \<Rightarrow> Inr (from_string (if b then js ''true'' else js ''false''))
      | Number s \<Rightarrow> Inr (from_string s)
      | Str s \<Rightarrow> Inr (from_string s)
      | Array pairs \<Rightarrow> sequence (map from_pair pairs)
      | Object props \<Rightarrow> from_record props [])"

text \<open>\<open>get\<close>: the value of the first pair of that name, or \<open>null\<close>.\<close>

definition params_get :: "params \<Rightarrow> jsstring \<Rightarrow> jsstring option" where
  "params_get ps name = map_option snd (find (\<lambda>p. fst p = name) ps)"

text \<open>\<open>delete\<close>: every pair of that name goes.\<close>

definition params_delete :: "params \<Rightarrow> jsstring \<Rightarrow> params" where
  "params_delete ps name = filter (\<lambda>p. fst p \<noteq> name) ps"

text \<open>
  \<open>append\<close>: name and value are converted to strings first, so \<open>undefined\<close> is
  appended as the text \<open>undefined\<close>.
\<close>

definition to_string :: "jsstring option \<Rightarrow> jsstring" where
  "to_string v = (case v of None \<Rightarrow> js ''undefined'' | Some s \<Rightarrow> s)"

definition params_append :: "params \<Rightarrow> jsstring \<Rightarrow> jsstring option \<Rightarrow> params" where
  "params_append ps name v = ps @ [(to_usv name, to_usv (to_string v))]"

text \<open>
  \<open>sort\<close>: a stable sort by name, names compared by their code units (the order of
  \<open><\<close> on 16-bit code unit lists).
\<close>

definition params_sort :: "params \<Rightarrow> params" where
  "params_sort ps = sort_key fst ps"

definition params_toString :: "params \<Rightarrow> jsstring" where
  "params_toString ps = serializeParams ps"

section \<open>The handler \<open>verifyInitData\<close>\<close>

text \<open>
  \<open>createHmac('sha256', key).update(message).digest()\<close> is a parameter of the
  model: a function from the key bytes and the message bytes to the digest bytes.
  \<open>digest('hex')\<close> writes each digest byte as two lowercase hexadecimal digits.
\<close>

type_synonym hmac = "bytes \<Rightarrow> bytes \<Rightarrow> bytes"

definition hex_digit :: "nat \<Rightarrow> 16 word" where
  "hex_digit n = (if n < 10 then of_nat (0x30 + n) else of_nat (0x57 + n))"

definition hex :: "bytes \<Rightarrow> jsstring" where
  "hex bs = concat (map (\<lambda>b. [hex_digit (unat b div 16), hex_digit (unat b mod 16)]) bs)"

text \<open>\<open>process.env\<close>: each variable is a string or \<open>undefined\<close>.\<close>

record env =
  BOT_TOKEN :: "jsstring option"
  CLIENT_ID :: "jsstring option"
  CLIENT_SECRET :: "jsstring option"

text \<open>The three responses the handler sends.\<close>

datatype response =
    InvalidInitData \<comment> \<open>401, \<open>success: false, message: 'Invalid InitData'\<close>\<close>
  | Success jsstring \<comment> \<open>200, \<open>success: true, initData: ...\<close>\<close>
  | ServerError \<comment> \<open>500, \<open>success: false, message: 'Server error'\<close>\<close>

definition status :: "response \<Rightarrow> nat" where
  "status r = (case r of InvalidInitData \<Rightarrow> 401 | Success _ \<Rightarrow> 200 | ServerError \<Rightarrow> 500)"

text \<open>
  The loop over \<open>urlParams.entries()\<close> that appends \<open>key=value\n\<close> for each pair,
  and \<open>slice(0, -1)\<close>, which drops the last code unit (of the empty string: nothing).
\<close>

definition dataCheckString :: "params \<Rightarrow> jsstring" where
  "dataCheckString urlParams =
     butlast (foldl (\<lambda>acc (key, val). acc @ key @ [0x3D] @ val @ [0x0A]) [] urlParams)"

text \<open>
  Exceptions. \<open>createHmac('sha256', key).update(data).digest()\<close> throws a
  \<open>TypeError\<close> in \<open>update\<close> when \<open>data\<close> is \<open>undefined\<close>; destructuring a
  missing body throws one too.
\<close>

definition hmac_digest :: "hmac \<Rightarrow> bytes \<Rightarrow> jsstring option \<Rightarrow> exn + bytes" where
  "hmac_digest hmac_sha256 key data =
     (case data of
        None \<Rightarrow> Inl TypeError
      | Some s \<Rightarrow> Inr (hmac_sha256 key (utf8 s)))"

text \<open>
  The \<open>try\<close> block of the handler. \<open>req_body\<close> is \<open>None\<close> when the request has no
  body object, and otherwise holds the body's \<open>initData\<close>.
\<close>

definition try_block :: "hmac \<Rightarrow> env \<Rightarrow> jsvalue option \<Rightarrow> exn + response" where
  "try_block hmac_sha256 e req_body =
     (case req_body of
        None \<Rightarrow> Inl TypeError
      | Some initData \<Rightarrow>
          (case URLSearchParams initData of
             Inl error \<Rightarrow> Inl error
           | Inr urlParams \<Rightarrow>
               (let hash = params_get urlParams (js ''hash'');
                    urlParams = params_delete urlParams (js ''hash'');
                    urlParams = params_sort urlParams;
                    dcs = dataCheckString urlParams
                in case hmac_digest hmac_sha256 (utf8 (js ''WebAppData'')) (BOT_TOKEN e) of
                     Inl error \<Rightarrow> Inl error
                   | Inr secret \<Rightarrow>
                       (let calculatedHash = hex (hmac_sha256 secret (utf8 dcs))
                        in if hash \<noteq> Some calculatedHash then Inr InvalidInitData
                           else
                             (let urlParams =
                                    params_append urlParams (js ''client_id'') (CLIENT_ID e);
                                  urlParams = params_sort urlParams;
                                  dcs = dataCheckString urlParams
                              in case hmac_digest hmac_sha256 (utf8 (js ''WebAppData''))
                                        (CLIENT_SECRET e) of
                                   Inl error \<Rightarrow> Inl error
                                 | Inr centralSecret \<Rightarrow>
                                     (let centralHash =
                                            hex (hmac_sha256 centralSecret (utf8 dcs));
                                          urlParams =
                                            params_append urlParams (js ''hash'')
                                              (Some centralHash)
                                      in Inr (Success (params_toString urlParams))))))))"

text \<open>The handler: the \<open>catch\<close> answers every exception with the 500 response.\<close>

definition verifyInitData :: "hmac \<Rightarrow> env \<Rightarrow> jsvalue option \<Rightarrow> response" where
  "verifyInitData hmac_sha256 e req_body =
     (case try_block hmac_sha256 e req_body of
        Inl error \<Rightarrow> ServerError
      | Inr res \<Rightarrow> res)"

section \<open>Parts of the handler and notions of the specification\<close>

text \<open>
  The two-step derivation of the specification: the derived key is the raw digest of
  the HMAC keyed with \<open>WebAppData\<close> over the secret, a signature is the hexadecimal
  digest of the HMAC keyed with the derived key over the check string.
\<close>

definition derive_key :: "hmac \<Rightarrow> jsstring \<Rightarrow> bytes" where
  "derive_key h secret = h (utf8 (js ''WebAppData'')) (utf8 secret)"

definition sign :: "hmac \<Rightarrow> jsstring \<Rightarrow> bytes \<Rightarrow> jsstring" where
  "sign h check_string derived_key = hex (h derived_key (utf8 check_string))"

text \<open>Lines 13 to 19 of the handler, as one function of the parsed pairs.\<close>

definition check_string :: "params \<Rightarrow> jsstring" where
  "check_string ps = dataCheckString (params_sort (params_delete ps (js ''hash'')))"

text \<open>
  Verification of a credential against a secret, as lines 10 to 27 do it for the bot
  token: parse, take the \<open>hash\<close> value, canonicalize the other pairs, compare.
\<close>

definition verify_pairs :: "hmac \<Rightarrow> jsstring \<Rightarrow> params \<Rightarrow> bool" where
  "verify_pairs h secret ps =
     (params_get ps (js ''hash'') = Some (sign h (check_string ps) (derive_key h secret)))"

definition verify :: "hmac \<Rightarrow> jsstring \<Rightarrow> jsvalue \<Rightarrow> bool" where
  "verify h secret credential =
     (case URLSearchParams credential of
        Inl error \<Rightarrow> False
      | Inr ps \<Rightarrow> verify_pairs h secret ps)"

text \<open>The pairs after line 39: hash removed, sorted, \<open>client_id\<close> appended, sorted again.\<close>

definition augmented :: "env \<Rightarrow> params \<Rightarrow> params" where
  "augmented e ps =
     params_sort (params_append (params_sort (params_delete ps (js ''hash'')))
       (js ''client_id'') (CLIENT_ID e))"

text \<open>One line of a check string.\<close>

definition line :: "jsstring \<times> jsstring \<Rightarrow> jsstring" where
  "line p = fst p @ [0x3D] @ snd p"

definition all_well_formed :: "params \<Rightarrow> bool" where
  "all_well_formed ps = list_all (\<lambda>p. well_formed (fst p) \<and> well_formed (snd p)) ps"

text \<open>
  The canonical check string in the specification's words: the pairs without the
  \<open>hash\<close> field, sorted by key under byte-wise ordering (of the keys' UTF-8 bytes,
  stably), each rendered as \<open>key=value\<close>, joined by single newlines.
\<close>

definition canonical_bytewise :: "params \<Rightarrow> jsstring" where
  "canonical_bytewise ps =
     join [0x0A] (map line (sort_key (\<lambda>p. utf8 (fst p)) (filter (\<lambda>p. fst p \<noteq> js ''hash'') ps)))"

text \<open>The same with the keys compared by their UTF-16 code units.\<close>

definition canonical_codeunit :: "params \<Rightarrow> jsstring" where
  "canonical_codeunit ps =
     join [0x0A] (map line (sort_key fst (filter (\<lambda>p. fst p \<noteq> js ''hash'') ps)))"

definition ascii_keys :: "params \<Rightarrow> bool" where
  "ascii_keys ps = list_all (\<lambda>p. list_all (\<lambda>u. unat u < 0x80) (fst p)) ps"

definition bytewise_sorted :: "params \<Rightarrow> bool" where
  "bytewise_sorted ps = sorted (map (\<lambda>p. utf8 (fst p)) ps)"


text \<open>
  The specification's example of a wire form that cannot be decoded: a percent sign
  that is not followed by two hexadecimal digits.
\<close>

fun bad_escape :: "jsstring \<Rightarrow> bool" where
  "bad_escape (p # a # b # r) =
     (if p = 0x25 then (if is_hex a \<and> is_hex b then bad_escape r else True)
      else bad_escape (a # b # r))"
| "bad_escape bs = (0x25 \<in> set bs)"

text \<open>
  A credential as the upstream authority issues it for the pairs \<open>ps\<close>: the pairs and
  their signature under the secret, on the wire.
\<close>

definition signed_credential :: "hmac \<Rightarrow> jsstring \<Rightarrow> params \<Rightarrow> jsstring" where
  "signed_credential h secret ps =
     params_toString (ps @ [(js ''hash'', sign h (check_string ps) (derive_key h secret))])"

section \<open>Concrete instances\<close>

text \<open>
  A stand-in for the HMAC primitive, to run the model on literals: the key followed by
  the message. The theorems below hold for every function in its place.
\<close>

definition concat_mac :: hmac where
  "concat_mac key message = key @ message"

text \<open>A configured environment.\<close>

definition example_env :: env where
  "example_env = \<lparr>BOT_TOKEN = Some (js ''S1''), CLIENT_ID = Some (js ''CID''),
     CLIENT_SECRET = Some (js ''S2'')\<rparr>"

section \<open>Lemmas: encodings\<close>

lemma unat8: "n < 256 \<Longrightarrow> unat (of_nat n :: 8 word) = n"
  by (simp add: unat_of_nat)
lemma unat16: "n < 65536 \<Longrightarrow> unat (of_nat n :: 16 word) = n"
  by (simp add: unat_of_nat)

lemma scalar_lone: "scalar (lone u)"
  using unsigned_less [of u, where ?'a = nat]
  by (auto simp: lone_def scalar_def is_high_def is_low_def)

lemma scalar_pair:
  "is_high u \<Longrightarrow> is_low v \<Longrightarrow> scalar (0x10000 + (unat u - 0xD800) * 0x400 + (unat v - 0xDC00))"
  by (auto simp: scalar_def is_high_def is_low_def)

lemma utf16_decode_scalar: "list_all scalar (utf16_decode s)"
  by (induction s rule: utf16_decode.induct) (simp_all add: scalar_lone scalar_pair)

lemma utf16_decode_enc:
  assumes "scalar c"
  shows "utf16_decode (utf16_enc_cp c @ r) = c # utf16_decode r"
proof (cases "c < 0x10000")
  case True
  then have u: "unat (of_nat c :: 16 word) = c" by (simp add: unat16)
  with assms True have l: "lone (of_nat c) = c" "\<not> is_high (of_nat c :: 16 word)"
    by (auto simp: lone_def is_high_def is_low_def scalar_def)
  show ?thesis
    using True l by (cases r) (simp_all add: utf16_enc_cp_def)
next
  case False
  define x where "x = c - 0x10000"
  define hi :: "16 word" where "hi = of_nat (0xD800 + x div 0x400)"
  define lo :: "16 word" where "lo = of_nat (0xDC00 + x mod 0x400)"
  from assms False have x: "x < 0x100000" "c = 0x10000 + x" by (auto simp: scalar_def x_def)
  have h: "unat hi = 0xD800 + x div 0x400"
    unfolding hi_def using x by (intro unat16) simp
  have l: "unat lo = 0xDC00 + x mod 0x400"
    unfolding lo_def by (intro unat16) simp
  have e: "utf16_enc_cp c = [hi, lo]"
    using False by (simp add: utf16_enc_cp_def hi_def lo_def x_def)
  have d: "x div 0x400 \<le> 0x3FF" "x mod 0x400 \<le> 0x3FF"
    using x by simp_all
  have m: "x div 0x400 * 0x400 + x mod 0x400 = x" by simp
  show ?thesis
    unfolding e using x h l d m
    by (simp add: is_high_def is_low_def)
qed

lemma utf16_decode_encode: "list_all scalar cs \<Longrightarrow> utf16_decode (utf16_encode cs @ r) = cs @ utf16_decode r"
  by (induction cs) (simp_all add: utf16_encode_def utf16_decode_enc)

lemma scalar2: "0xC2 \<le> b \<Longrightarrow> b \<le> 0xDF \<Longrightarrow> cont c \<Longrightarrow> scalar ((b - 0xC0) * 64 + (c - 0x80))"
  by (auto simp: scalar_def cont_def)

lemma scalar3:
  "0xE0 \<le> b \<Longrightarrow> b \<le> 0xEF \<Longrightarrow> lower3 b \<le> c \<Longrightarrow> c \<le> upper3 b \<Longrightarrow> cont d
   \<Longrightarrow> scalar ((b - 0xE0) * 4096 + (c - 0x80) * 64 + (d - 0x80))"
  by (auto simp: scalar_def cont_def lower3_def upper3_def split: if_splits)

lemma scalar4:
  "0xF0 \<le> b \<Longrightarrow> b \<le> 0xF4 \<Longrightarrow> lower4 b \<le> c \<Longrightarrow> c \<le> upper4 b \<Longrightarrow> cont d \<Longrightarrow> cont e
   \<Longrightarrow> scalar ((b - 0xF0) * 262144 + (c - 0x80) * 4096 + (d - 0x80) * 64 + (e - 0x80))"
  by (auto simp: scalar_def cont_def lower4_def upper4_def split: if_splits)

lemma scalar_FFFD: "scalar 0xFFFD" and scalar_ascii: "b < 0x80 \<Longrightarrow> scalar b"
  by (simp_all add: scalar_def)

lemma utf8_decode_scalar: "list_all scalar (utf8_decode bs)"
proof (induction bs rule: utf8_decode.induct)
  case 1
  show ?case by simp
next
  case (2 b bs)
  show ?case
    using 2
    by (auto simp: scalar2 scalar3 scalar4 scalar_FFFD scalar_ascii split: list.splits)
qed

lemma split3: "c div 4096 * 4096 + c div 64 mod 64 * 64 + c mod 64 = (c::nat)"
proof -
  define q where "q = c div 64"
  have 1: "c div 4096 = q div 64" by (simp add: q_def div_mult2_eq)
  have 2: "q = q div 64 * 64 + q mod 64" by simp
  have 3: "c = q * 64 + c mod 64" by (simp add: q_def)
  show ?thesis unfolding 1 q_def[symmetric] using 2 3 by linarith
qed

lemma split4:
  "c div 262144 * 262144 + c div 4096 mod 64 * 4096 + c div 64 mod 64 * 64 + c mod 64 = (c::nat)"
proof -
  define q where "q = c div 4096"
  have 1: "c div 262144 = q div 64" by (simp add: q_def div_mult2_eq)
  have 2: "q = q div 64 * 64 + q mod 64" by simp
  have 3: "q * 4096 + c div 64 mod 64 * 64 + c mod 64 = c"
    using split3 [of c] by (simp add: q_def)
  show ?thesis unfolding 1 q_def[symmetric] using 2 3 by linarith
qed

lemma mid_lower3: "0x800 \<le> c \<Longrightarrow> c div 4096 = 0 \<Longrightarrow> 32 \<le> c div 64 mod 64" for c :: nat
proof -
  assume a: "0x800 \<le> c" "c div 4096 = 0"
  then have "c < 4096" by (simp add: div_eq_0_iff)
  with a have "32 \<le> c div 64" "c div 64 < 64" by simp_all
  then show ?thesis by simp
qed

lemma mid_upper3: "c div 4096 = 13 \<Longrightarrow> c < 0xD800 \<Longrightarrow> c div 64 mod 64 \<le> 31" for c :: nat
proof -
  assume a: "c div 4096 = 13" "c < 0xD800"
  define q where "q = c div 64"
  have "q div 64 = 13" using a by (simp add: q_def div_mult2_eq)
  moreover have "q < 864" using a by (simp add: q_def)
  moreover have "q = q div 64 * 64 + q mod 64" by simp
  ultimately show ?thesis unfolding q_def[symmetric] by linarith
qed

lemma mid_lower4: "0x10000 \<le> c \<Longrightarrow> c div 262144 = 0 \<Longrightarrow> 16 \<le> c div 4096 mod 64" for c :: nat
proof -
  assume a: "0x10000 \<le> c" "c div 262144 = 0"
  then have "c < 262144" by (simp add: div_eq_0_iff)
  with a have "16 \<le> c div 4096" "c div 4096 < 64" by simp_all
  then show ?thesis by simp
qed

lemma mid_upper4: "c div 262144 = 4 \<Longrightarrow> c < 0x110000 \<Longrightarrow> c div 4096 mod 64 \<le> 15" for c :: nat
proof -
  assume a: "c div 262144 = 4" "c < 0x110000"
  define q where "q = c div 4096"
  have "q div 64 = 4" using a by (simp add: q_def div_mult2_eq)
  moreover have "q < 272" using a by (simp add: q_def)
  moreover have "q = q div 64 * 64 + q mod 64" by simp
  ultimately show ?thesis unfolding q_def[symmetric] by linarith
qed

lemma utf8_decode_enc:
  assumes "scalar c"
  shows "utf8_decode (map unat (utf8_enc_cp c) @ r) = c # utf8_decode r"
proof -
  consider "c < 0x80" | "0x80 \<le> c" "c < 0x800" | "0x800 \<le> c" "c < 0x10000"
    | "0x10000 \<le> c" "c < 0x110000"
    using assms unfolding scalar_def by linarith
  then show ?thesis
  proof cases
    case 1
    then show ?thesis by (simp add: utf8_enc_cp_def unat8)
  next
    case 2
    define b1 where "b1 = 0xC0 + c div 64"
    define b2 where "b2 = 0x80 + c mod 64"
    have r: "0xC2 \<le> b1" "b1 \<le> 0xDF" "0x80 \<le> b2" "b2 \<le> 0xBF"
      using 2 by (simp_all add: b1_def b2_def)
    have "utf8_enc_cp c = [of_nat b1, of_nat b2]"
      using 2 by (simp add: utf8_enc_cp_def b1_def b2_def)
    then have e: "map unat (utf8_enc_cp c) = [b1, b2]"
      using r by (simp add: unat8)
    have v: "(b1 - 0xC0) * 64 + (b2 - 0x80) = c"
      by (simp add: b1_def b2_def)
    show ?thesis unfolding e using r v by (simp add: cont_def)
  next
    case 3
    define b1 where "b1 = 0xE0 + c div 4096"
    define b2 where "b2 = 0x80 + c div 64 mod 64"
    define b3 where "b3 = 0x80 + c mod 64"
    have r: "0xE0 \<le> b1" "b1 \<le> 0xEF" "0x80 \<le> b2" "b2 \<le> 0xBF" "0x80 \<le> b3" "b3 \<le> 0xBF"
      using 3 by (simp_all add: b1_def b2_def b3_def)
    have lo: "lower3 b1 \<le> b2"
      using 3 mid_lower3 [of c] by (simp add: lower3_def b1_def b2_def)
    have "c < 0xD800" if "c div 4096 = 13"
      using that assms unfolding scalar_def by linarith
    then have hi: "b2 \<le> upper3 b1"
      using r mid_upper3 [of c] by (simp add: upper3_def b1_def b2_def)
    have "utf8_enc_cp c = [of_nat b1, of_nat b2, of_nat b3]"
      using 3 by (simp add: utf8_enc_cp_def b1_def b2_def b3_def)
    then have e: "map unat (utf8_enc_cp c) = [b1, b2, b3]"
      using r by (simp add: unat8)
    have v: "(b1 - 0xE0) * 4096 + (b2 - 0x80) * 64 + (b3 - 0x80) = c"
      using split3 [of c] by (simp add: b1_def b2_def b3_def)
    show ?thesis unfolding e using r lo hi v by (simp add: cont_def)
  next
    case 4
    define b1 where "b1 = 0xF0 + c div 262144"
    define b2 where "b2 = 0x80 + c div 4096 mod 64"
    define b3 where "b3 = 0x80 + c div 64 mod 64"
    define b4 where "b4 = 0x80 + c mod 64"
    have r: "0xF0 \<le> b1" "b1 \<le> 0xF4" "0x80 \<le> b2" "b2 \<le> 0xBF" "0x80 \<le> b3" "b3 \<le> 0xBF"
         "0x80 \<le> b4" "b4 \<le> 0xBF"
      using 4 by (simp_all add: b1_def b2_def b3_def b4_def)
    have lo: "lower4 b1 \<le> b2"
      using 4 mid_lower4 [of c] by (simp add: lower4_def b1_def b2_def)
    have hi: "b2 \<le> upper4 b1"
      using 4 r mid_upper4 [of c] by (auto simp: upper4_def b1_def b2_def)
    have "utf8_enc_cp c = [of_nat b1, of_nat b2, of_nat b3, of_nat b4]"
      using 4 by (simp add: utf8_enc_cp_def b1_def b2_def b3_def b4_def)
    then have e: "map unat (utf8_enc_cp c) = [b1, b2, b3, b4]"
      using r by (simp add: unat8)
    have v: "(b1 - 0xF0) * 262144 + (b2 - 0x80) * 4096 + (b3 - 0x80) * 64 + (b4 - 0x80) = c"
      using split4 [of c] by (simp add: b1_def b2_def b3_def b4_def)
    show ?thesis unfolding e using r lo hi v by (simp add: cont_def)
  qed
qed




lemma utf16_decode_encode_all: "list_all scalar cs \<Longrightarrow> utf16_decode (utf16_encode cs) = cs"
  using utf16_decode_encode [of cs "[]"] by simp

lemma well_formed_encode: "list_all scalar cs \<Longrightarrow> well_formed (utf16_encode cs)"
  by (simp add: well_formed_def to_usv_def utf16_decode_encode_all)

lemma well_formed_to_usv: "well_formed (to_usv s)"
  by (simp add: to_usv_def well_formed_encode utf16_decode_scalar)

lemma well_formed_utf8_to_string: "well_formed (utf8_to_string bs)"
  by (simp add: utf8_to_string_def well_formed_encode utf8_decode_scalar)


text \<open>Strings of code units below 0xD800 (in particular ASCII) are well formed.\<close>

lemma utf16_decode_low: "\<forall>u \<in> set s. unat u < 0xD800 \<Longrightarrow> utf16_decode s = map unat s"
  by (induction s rule: utf16_decode.induct) (auto simp: lone_def is_high_def is_low_def)

lemma utf16_encode_low: "\<forall>c \<in> set cs. c < 0x10000 \<Longrightarrow> utf16_encode cs = map of_nat cs"
  by (induction cs) (auto simp: utf16_encode_def utf16_enc_cp_def)

lemma to_usv_low: "\<forall>u \<in> set s. unat u < 0xD800 \<Longrightarrow> to_usv s = s"
proof -
  assume a: "\<forall>u \<in> set s. unat u < 0xD800"
  then have "utf16_decode s = map unat s" by (rule utf16_decode_low)
  moreover have "utf16_encode (map unat s) = map of_nat (map unat s)"
    using a by (intro utf16_encode_low) auto
  ultimately show ?thesis by (simp add: to_usv_def map_idI)
qed

lemma unat_lt_256: "unat (x :: 8 word) < 256"
  using unsigned_less [of x, where ?'a = nat] by simp

lemma unat_ucast_8_16: "unat (ucast (x::8 word) :: 16 word) = unat x"
  using unat_lt_256 [of x] by (simp add: unsigned_ucast_eq take_bit_nat_eq_self_iff)

subsection \<open>The loop of the parser and its description pair by pair\<close>

lemma escape_seen_skip: "p \<noteq> 0x25 \<Longrightarrow> escape_seen (p # r) = escape_seen r"
proof (cases r)
  case Nil
  then show ?thesis by simp
next
  case (Cons a s)
  assume "p \<noteq> 0x25"
  then show ?thesis unfolding Cons by (cases s) simp_all
qed

lemma not_hex_percent: "\<not> is_hex 0x25" and not_hex_plus: "\<not> is_hex 0x2B"
  by (simp_all add: is_hex_def)

lemma hex_not_percent: "is_hex c \<Longrightarrow> c \<noteq> 0x25"
  using not_hex_percent by blast

lemma escape_seen_percent2: "escape_seen (0x25 # 0x25 # r) = escape_seen (0x25 # r)"
  by (cases r) (simp_all add: not_hex_percent)

lemma escape_seen_percent_other:
  "\<not> is_hex c \<Longrightarrow> c \<noteq> 0x25 \<Longrightarrow> escape_seen (0x25 # c # r) = escape_seen r"
  by (cases r) (simp_all add: escape_seen_skip)

lemma escape_seen_percent_hex:
  "is_hex c \<Longrightarrow> escape_seen (0x25 # c # r) = ((r \<noteq> [] \<and> is_hex (hd r)) \<or> escape_seen r)"
  by (cases r) (auto simp: escape_seen_skip hex_not_percent)

text \<open>What \<open>encodeCheck\<close> remembers: the start of an escape read just before.\<close>

lemma step_component:
  assumes "c \<noteq> 0x26" and "seenSep st \<or> c \<noteq> 0x3D"
  shows "out_pairs (parse_step st c) = out_pairs st" "out_name (parse_step st c) = out_name st"
    "seenSep (parse_step st c) = seenSep st" "buf (parse_step st c) = buf st @ plus_to_space [c]"
    "\<not> pairEmpty (parse_step st c)"
  using assms by (auto simp: parse_step_def plus_to_space_def)

lemma run_component:
  assumes "0x26 \<notin> set cs" and "seenSep st \<or> 0x3D \<notin> set cs"
  shows "out_pairs (foldl parse_step st cs) = out_pairs st
    \<and> out_name (foldl parse_step st cs) = out_name st
    \<and> seenSep (foldl parse_step st cs) = seenSep st
    \<and> buf (foldl parse_step st cs) = buf st @ plus_to_space cs
    \<and> pairEmpty (foldl parse_step st cs) = (pairEmpty st \<and> cs = [])"
  using assms
proof (induction cs arbitrary: st)
  case Nil
  show ?case by (simp add: plus_to_space_def)
next
  case (Cons c cs)
  from Cons.prems have c: "c \<noteq> 0x26" "seenSep st \<or> c \<noteq> 0x3D" by auto
  note s = step_component [OF c]
  from Cons.prems s(3) have "0x26 \<notin> set cs" "seenSep (parse_step st c) \<or> 0x3D \<notin> set cs"
    by auto
  from Cons.IH [OF this] show ?case
    using s by (simp add: plus_to_space_def)
qed

lemma step_encoded:
  fixes started :: "nat \<Rightarrow> jsstring"
  assumes "c \<noteq> 0x26" and "seenSep st \<or> c \<noteq> 0x3D" and "encoded st \<or> encodeCheck st < 3"
    and started: "started = (\<lambda>k. if k = 0 then [] else if k = 1 then [0x25] else [0x25, 0x30])"
  shows "(encoded (parse_step st c) \<or> encodeCheck (parse_step st c) < 3)
    \<and> (encoded (parse_step st c)
        \<or> escape_seen (started (encodeCheck (parse_step st c)) @ r))
      = (encoded st
         \<or> escape_seen (started (encodeCheck st)
             @ filter (\<lambda>u. u \<noteq> 0x2B) [c] @ r))"
proof (cases "encoded st")
  case True
  with assms show ?thesis by (auto simp: parse_step_def)
next
  case False
  have h0: "is_hex 0x30" by (simp add: is_hex_def)
  from False assms(3) consider "encodeCheck st = 0" | "encodeCheck st = 1" | "encodeCheck st = 2"
    by fastforce
  then show ?thesis
  proof cases
    case 1
    with False assms(1,2) show ?thesis
      by (auto simp: parse_step_def escape_seen_skip started)
  next
    case 2
    with False assms(1,2) show ?thesis
      by (auto simp: parse_step_def escape_seen_percent2 escape_seen_percent_other
          escape_seen_percent_hex not_hex_plus h0 started)
  next
    case 3
    from 3 False assms(1,2) show ?thesis
      by (cases "c = 0x25"; cases "is_hex c"; cases "c = 0x2B")
        (auto simp: parse_step_def escape_seen_percent_hex h0 escape_seen_skip
          not_hex_plus not_hex_percent started)
  qed
qed


lemma run_encoded:
  fixes started :: "nat \<Rightarrow> jsstring"
  assumes "0x26 \<notin> set cs" and "seenSep st \<or> 0x3D \<notin> set cs"
    and "encoded st \<or> encodeCheck st < 3"
    and started: "started = (\<lambda>k. if k = 0 then [] else if k = 1 then [0x25] else [0x25, 0x30])"
  shows "(encoded (foldl parse_step st cs) \<or> encodeCheck (foldl parse_step st cs) < 3)
    \<and> (encoded (foldl parse_step st cs)
        \<or> escape_seen (started (encodeCheck (foldl parse_step st cs)) @ r))
      = (encoded st
         \<or> escape_seen (started (encodeCheck st)
             @ filter (\<lambda>u. u \<noteq> 0x2B) cs @ r))"
  using assms
proof (induction cs arbitrary: st)
  case Nil
  then show ?case by simp
next
  case (Cons c cs)
  from Cons.prems have c: "c \<noteq> 0x26" "seenSep st \<or> c \<noteq> 0x3D" by auto
  note s = step_component [OF c]
  note e = step_encoded [OF c Cons.prems(3) started]
  from Cons.prems s(3) have p: "0x26 \<notin> set cs" "seenSep (parse_step st c) \<or> 0x3D \<notin> set cs"
    by auto
  from e have q: "encoded (parse_step st c) \<or> encodeCheck (parse_step st c) < 3" by blast
  from Cons.IH [OF p q started] e [of "filter (\<lambda>u. u \<noteq> 0x2B) cs @ r"]
  show ?case by simp
qed

lemma component_after:
  assumes "0x26 \<notin> set cs" and "seenSep st \<or> 0x3D \<notin> set cs"
    and "\<not> encoded st" and "encodeCheck st = 0" and "buf st = []"
  shows "component (foldl parse_step st cs) = decode_component cs"
proof -
  from run_encoded [OF assms(1,2) _ refl, of "[]"] assms(3,4)
  have "encoded (foldl parse_step st cs) = escape_seen (filter (\<lambda>u. u \<noteq> 0x2B) cs)"
    by (auto split: if_splits)
  moreover from run_component [OF assms(1,2)] assms(5)
  have "buf (foldl parse_step st cs) = plus_to_space cs" by simp
  ultimately show ?thesis by (simp add: component_def decode_component_def)
qed

text \<open>A piece, from the start of a pair to its end.\<close>

lemma decode_component_Nil: "decode_component [] = []"
  by (simp add: decode_component_def plus_to_space_def)

lemma piece_after:
  assumes "0x26 \<notin> set piece" and "piece \<noteq> []"
  shows "push_pair (foldl parse_step (parser_init \<lparr>out_pairs := acc\<rparr>) piece)
           = acc @ [parse_pair piece]
    \<and> \<not> pairEmpty (foldl parse_step (parser_init \<lparr>out_pairs := acc\<rparr>) piece)"
proof (cases "0x3D \<in> set piece")
  case False
  let ?st = "parser_init \<lparr>out_pairs := acc\<rparr>"
  have i: "\<not> encoded ?st" "encodeCheck ?st = 0" "buf ?st = []" "\<not> seenSep ?st"
    "out_pairs ?st = acc" "pairEmpty ?st"
    by (simp_all add: parser_init_def)
  from False have a: "seenSep ?st \<or> 0x3D \<notin> set piece" by simp
  from False have t: "takeWhile (\<lambda>u. u \<noteq> 0x3D) piece = piece"
    "dropWhile (\<lambda>u. u \<noteq> 0x3D) piece = []"
    by auto
  from run_component [OF assms(1) a] component_after [OF assms(1) a i(1,2,3)] assms(2) i
  show ?thesis
    by (simp add: push_pair_def parse_pair_def decode_component_Nil t)
next
  case True
  let ?st = "parser_init \<lparr>out_pairs := acc\<rparr>"
  from split_list_first [OF True] obtain k v where
    kv: "piece = k @ 0x3D # v" "0x3D \<notin> set k" by blast
  from assms(1) kv have n: "0x26 \<notin> set k" "0x26 \<notin> set v" by auto
  have i: "\<not> encoded ?st" "encodeCheck ?st = 0" "buf ?st = []" "\<not> seenSep ?st"
    "out_pairs ?st = acc" "pairEmpty ?st"
    by (simp_all add: parser_init_def)
  from kv have a: "seenSep ?st \<or> 0x3D \<notin> set k" by simp
  let ?s1 = "foldl parse_step ?st k"
  note r1 = run_component [OF n(1) a] and c1 = component_after [OF n(1) a i(1,2,3)]
  let ?s2 = "parse_step ?s1 0x3D"
  have s2: "out_pairs ?s2 = acc" "out_name ?s2 = decode_component k" "seenSep ?s2"
    "buf ?s2 = []" "\<not> encoded ?s2" "encodeCheck ?s2 = 0" "\<not> pairEmpty ?s2"
    using r1 c1 i by (simp_all add: parse_step_def)
  from s2(3) have b: "seenSep ?s2 \<or> 0x3D \<notin> set v" by simp
  let ?s3 = "foldl parse_step ?s2 v"
  note r3 = run_component [OF n(2) b] and c3 = component_after [OF n(2) b s2(5,6,4)]
  have f: "foldl parse_step ?st piece = ?s3" by (simp add: kv)
  from kv(2) have "takeWhile (\<lambda>u. u \<noteq> 0x3D) (k @ 0x3D # v) = k
      \<and> dropWhile (\<lambda>u. u \<noteq> 0x3D) (k @ 0x3D # v) = 0x3D # v"
    by (induction k) auto
  then have p: "parse_pair piece = (decode_component k, decode_component v)"
    unfolding kv(1) by (simp add: parse_pair_def)
  show ?thesis
    unfolding f p using r3 c3 s2 by (simp add: push_pair_def)
qed

lemma split_on_none: "d \<notin> set xs \<Longrightarrow> split_on d xs = [xs]"
  by (induction xs) auto

lemma split_on_append: "d \<notin> set xs \<Longrightarrow> split_on d (xs @ d # ys) = xs # split_on d ys"
  by (induction xs) auto

lemma parse_loop:
  "parse_finish (foldl parse_step (parser_init \<lparr>out_pairs := acc\<rparr>) qs) = acc @ parse_pieces qs"
proof (induction qs arbitrary: acc rule: length_induct)
  case (1 qs)
  let ?st = "parser_init \<lparr>out_pairs := acc\<rparr>"
  show ?case
  proof (cases "0x26 \<in> set qs")
    case False
    show ?thesis
    proof (cases "qs = []")
      case True
      then show ?thesis by (simp add: parse_finish_def parser_init_def parse_pieces_def)
    next
      case ne: False
      from piece_after [OF False ne, of "acc"] show ?thesis
        using False ne by (simp add: parse_finish_def parse_pieces_def split_on_none)
    qed
  next
    case True
    from split_list_first [OF True] obtain piece rest where
      q: "qs = piece @ 0x26 # rest" "0x26 \<notin> set piece" by blast
    have s: "foldl parse_step ?st (piece @ [0x26])
        = parser_init \<lparr>out_pairs := acc @ (if piece = [] then [] else [parse_pair piece])\<rparr>"
    proof (cases "piece = []")
      case True
      then show ?thesis by (simp add: parse_step_def parser_init_def)
    next
      case False
      from piece_after [OF q(2) False, of "acc"] show ?thesis
        using False by (simp add: parse_step_def)
    qed
    have "length rest < length qs" using q by simp
    with 1 have "parse_finish (foldl parse_step (parser_init \<lparr>out_pairs := d\<rparr>) rest)
        = d @ parse_pieces rest" for d
      by blast
    then show ?thesis
      using s q by (simp add: parse_pieces_def split_on_append)
  qed
qed

lemma parseParams_pieces:
  "parseParams qs = parse_pieces (case qs of [] \<Rightarrow> [] | c # r \<Rightarrow> if c = 0x3F then r else qs)"
proof -
  have "parser_init = parser_init \<lparr>out_pairs := []\<rparr>" by (simp add: parser_init_def)
  then show ?thesis
    unfolding parseParams_def using parse_loop [of "[]"] by simp
qed

subsection \<open>Well-formed strings\<close>



lemma well_formed_low: "\<forall>u \<in> set s. unat u < 0xD800 \<Longrightarrow> well_formed s"
  by (simp add: well_formed_def to_usv_low)


lemma enc_pair:
  assumes "is_high u" and "is_low v"
  shows "utf16_enc_cp (0x10000 + (unat u - 0xD800) * 0x400 + (unat v - 0xDC00)) = [u, v]"
proof -
  define a where "a = unat u - 0xD800"
  define b where "b = unat v - 0xDC00"
  from assms have r: "a < 0x400" "b < 0x400" "unat u = 0xD800 + a" "unat v = 0xDC00 + b"
    by (auto simp: is_high_def is_low_def a_def b_def)
  have "(a * 0x400 + b) div 0x400 = a" "(a * 0x400 + b) mod 0x400 = b"
    using r by simp_all
  then have "utf16_enc_cp (0x10000 + a * 0x400 + b)
      = [of_nat (0xD800 + a), of_nat (0xDC00 + b)]"
    by (simp add: utf16_enc_cp_def)
  moreover have "of_nat (0xD800 + a) = u" "of_nat (0xDC00 + b) = v"
    using r(3,4) [symmetric] by simp_all
  ultimately show ?thesis by (simp add: a_def b_def)
qed

lemma enc_lone: "utf16_enc_cp (lone u) = [if is_high u \<or> is_low u then 0xFFFD else u]"
  using unsigned_less [of u, where ?'a = nat]
  by (simp add: utf16_enc_cp_def lone_def)

lemma FFFD_not_surrogate: "\<not> is_high 0xFFFD" "\<not> is_low 0xFFFD"
  by (simp_all add: is_high_def is_low_def)

lemma high_not_low: "is_high u \<Longrightarrow> \<not> is_low u"
  by (simp add: is_high_def is_low_def)

lemma well_formed_paired: "well_formed s = paired False s"
proof (induction s rule: utf16_decode.induct)
  case 1
  show ?case by (simp add: well_formed_def to_usv_def utf16_encode_def)
next
  case (2 u)
  show ?case
    using FFFD_not_surrogate
    by (auto simp: well_formed_def to_usv_def utf16_encode_def enc_lone)
next
  case (3 u v r)
  show ?case
  proof (cases "is_high u \<and> is_low v")
    case True
    with 3 show ?thesis
      by (simp add: well_formed_def to_usv_def utf16_encode_def enc_pair)
  next
    case False
    with 3 show ?thesis
      using FFFD_not_surrogate high_not_low [of u]
      by (auto simp: well_formed_def to_usv_def utf16_encode_def enc_lone)
  qed
qed

lemma paired_split:
  assumes "\<not> is_high c" and "\<not> is_low c"
  shows "paired p (a @ c # b) = (paired p a \<and> paired False b)"
  using assms by (induction a arbitrary: p) auto

lemma paired_map:
  assumes "\<And>u. is_high (f u) = is_high u" and "\<And>u. is_low (f u) = is_low u"
  shows "paired p (map f s) = paired p s"
  using assms by (induction s arbitrary: p) auto

lemma ascii_not_surrogate: "unat c < 0xD800 \<Longrightarrow> \<not> is_high c \<and> \<not> is_low c"
  by (simp add: is_high_def is_low_def)

lemma well_formed_split:
  "unat c < 0xD800 \<Longrightarrow> well_formed (a @ c # b) = (well_formed a \<and> well_formed b)"
  using ascii_not_surrogate [of c] by (simp add: well_formed_paired paired_split)

lemma well_formed_plus_to_space: "well_formed (plus_to_space s) = well_formed s"
  unfolding well_formed_paired plus_to_space_def
  by (rule paired_map) (auto simp: is_high_def is_low_def)

lemma well_formed_pieces:
  "unat d < 0xD800 \<Longrightarrow> well_formed s \<Longrightarrow> \<forall>piece \<in> set (split_on d s). well_formed piece"
proof (induction s rule: length_induct)
  case (1 s)
  show ?case
  proof (cases "d \<in> set s")
    case False
    with 1 show ?thesis by (simp add: split_on_none)
  next
    case True
    from split_list_first [OF True] obtain a b where s: "s = a @ d # b" "d \<notin> set a" by blast
    from 1(3) have "well_formed a" "well_formed b"
      unfolding s using well_formed_split [OF 1(2)] by blast+
    moreover have "length b < length s" by (simp add: s)
    ultimately have "\<forall>piece \<in> set (split_on d b). well_formed piece"
      using 1(1,2) by blast
    with \<open>well_formed a\<close> show ?thesis
      by (simp add: s split_on_append)
  qed
qed

lemma well_formed_takeWhile:
  assumes "well_formed s" and "unat d < 0xD800"
  shows "well_formed (takeWhile (\<lambda>u. u \<noteq> d) s) \<and> well_formed (tl (dropWhile (\<lambda>u. u \<noteq> d) s))"
proof (cases "d \<in> set s")
  case False
  then have t: "takeWhile (\<lambda>u. u \<noteq> d) s = s" "dropWhile (\<lambda>u. u \<noteq> d) s = []" by auto
  have "well_formed []" by (rule well_formed_low) simp
  with assms show ?thesis unfolding t by simp
next
  case True
  from split_list_first [OF True] obtain a b where s: "s = a @ d # b" "d \<notin> set a" by blast
  from s(2) have "takeWhile (\<lambda>u. u \<noteq> d) (a @ d # b) = a
      \<and> dropWhile (\<lambda>u. u \<noteq> d) (a @ d # b) = d # b"
    by (induction a) auto
  with assms show ?thesis
    unfolding s using well_formed_split [OF assms(2), of a b] by simp
qed

subsection \<open>The parser yields well-formed strings\<close>

lemma escapes_ascii:
  "escapes n s = Some (octets, r) \<Longrightarrow> paired p s \<Longrightarrow> n \<noteq> 0 \<Longrightarrow> \<not> p \<and> paired False r"
proof (induction n s arbitrary: octets r p rule: escapes.induct)
  case (1 s)
  then show ?case by simp
next
  case (2 n q a b t)
  from 2(2) have h: "q = 0x25" "is_hex a" "is_hex b" by (auto split: if_splits)
  then have ns: "\<not> is_high q" "\<not> is_low q" "\<not> is_high a" "\<not> is_low a" "\<not> is_high b" "\<not> is_low b"
    by (auto simp: is_hex_def is_high_def is_low_def)
  with 2(3) have p: "\<not> p" "paired False t" by (auto split: if_splits)
  show ?case
  proof (cases n)
    case 0
    with 2(2) h p show ?thesis by simp
  next
    case (Suc m)
    from 2(2) h obtain os where "escapes n t = Some (os, r)"
      by (auto split: option.splits)
    from 2(1) [OF _ this p(2)] h Suc p show ?thesis by simp
  qed
qed simp_all

lemma code_point_scalar: "code_point octets = Some cp \<Longrightarrow> scalar cp"
proof -
  assume a: "code_point octets = Some cp"
  then have "utf8_decode octets = [cp]"
    by (auto simp: code_point_def split: list.splits if_splits)
  with utf8_decode_scalar [of octets] show ?thesis by simp
qed

lemma paired_enc:
  assumes "scalar cp"
  shows "paired False (utf16_enc_cp cp @ t) = paired False t"
proof -
  have "well_formed (utf16_enc_cp cp)"
    using well_formed_encode [of "[cp]"] assms by (simp add: utf16_encode_def)
  then have p: "paired False (utf16_enc_cp cp)" by (simp add: well_formed_paired)
  have "paired q (a @ b) = paired False b" if "paired q a" for q a b
    using that by (induction a arbitrary: q) (auto split: if_splits)
  from this [OF p] show ?thesis .
qed

lemma paired_decodeURIComponent:
  "decodeURIComponent s = Some t \<Longrightarrow> paired p s \<Longrightarrow> paired p t"
proof (induction s arbitrary: t p rule: decodeURIComponent.induct)
  case 1
  then show ?case by simp
next
  case (2 c s)
  show ?case
  proof (cases "c = 0x25")
    case False
    with 2(3) obtain t' where t: "decodeURIComponent s = Some t'" "t = c # t'"
      by (auto split: option.splits)
    from 2(4) 2(1) [OF False t(1)] show ?thesis
      unfolding t(2) by (auto split: if_splits)
  next
    case True
    with 2(3) obtain first x n octets r cp t' where
      e: "escapes 1 (c # s) = Some (first, x)" "sequence_length (hd first) = Some n"
        "escapes n (c # s) = Some (octets, r)" "code_point octets = Some cp"
        "decodeURIComponent r = Some t'" "t = utf16_enc_cp cp @ t'"
      by (auto split: option.splits)
    from e(2) have n: "n \<noteq> 0" by (auto simp: sequence_length_def split: if_splits)
    from escapes_ascii [OF e(3) 2(4) n] have p: "\<not> p" "paired False r" by blast+
    have "\<not> c \<noteq> 0x25" using True by simp
    from 2(2) [OF this e(1) _ e(2) e(3) _ e(4) e(5) p(2)]
    have "paired False t'" by simp
    then show ?thesis
      using p(1) by (simp add: e(6) paired_enc code_point_scalar [OF e(4)])
  qed
qed

lemma well_formed_unescape: "well_formed s \<Longrightarrow> well_formed (unescape s)"
proof (cases "decodeURIComponent s")
  case None
  then show ?thesis by (simp add: unescape_def well_formed_utf8_to_string)
next
  case (Some t)
  assume "well_formed s"
  with paired_decodeURIComponent [OF Some, of False] Some show ?thesis
    by (simp add: unescape_def well_formed_paired)
qed

lemma well_formed_decode_component: "well_formed c \<Longrightarrow> well_formed (decode_component c)"
  by (simp add: decode_component_def well_formed_unescape well_formed_plus_to_space)

lemma well_formed_parse_pair:
  assumes "well_formed piece"
  shows "well_formed (fst (parse_pair piece)) \<and> well_formed (snd (parse_pair piece))"
  using well_formed_takeWhile [OF assms, of "0x3D"]
  by (simp add: parse_pair_def well_formed_decode_component)

lemma all_well_formed_parseParams:
  assumes "well_formed qs"
  shows "all_well_formed (parseParams qs)"
proof -
  let ?q = "case qs of [] \<Rightarrow> [] | c # r \<Rightarrow> if c = 0x3F then r else qs"
  have "well_formed ?q"
  proof (cases qs)
    case Nil
    then show ?thesis by (simp add: well_formed_low)
  next
    case (Cons c r)
    show ?thesis
    proof (cases "c = 0x3F")
      case True
      from assms well_formed_split [of "0x3F" "[]" r] show ?thesis
        by (simp add: Cons True)
    next
      case False
      with assms show ?thesis by (simp add: Cons)
    qed
  qed
  from well_formed_pieces [OF _ this, of "0x26"] show ?thesis
    by (simp add: parseParams_pieces parse_pieces_def all_well_formed_def list_all_iff
        well_formed_parse_pair)
qed

lemma all_well_formed_from_string: "all_well_formed (from_string s)"
  by (simp add: from_string_def Let_def all_well_formed_parseParams well_formed_to_usv)
    (simp add: all_well_formed_def)

subsection \<open>Parsing what the serializer wrote\<close>

lemma upper_hex_digit_props:
  assumes "n < 16"
  shows "is_hex (upper_hex_digit n)" "hex_val (upper_hex_digit n) = n"
    "unat (upper_hex_digit n) < 0x80" "upper_hex_digit n \<noteq> 0x2B"
    "upper_hex_digit n \<noteq> 0x26" "upper_hex_digit n \<noteq> 0x3D" "upper_hex_digit n \<noteq> 0x3F"
    "upper_hex_digit n \<noteq> 0x25"
proof -
  have u: "unat (upper_hex_digit n) = (if n < 10 then 0x30 + n else 0x37 + n)"
    using assms unat16 [of "0x30 + n"] unat16 [of "0x37 + n"] by (simp add: upper_hex_digit_def)
  show "is_hex (upper_hex_digit n)" "hex_val (upper_hex_digit n) = n"
    "unat (upper_hex_digit n) < 0x80"
    using assms u by (auto simp: is_hex_def hex_val_def)
  show "upper_hex_digit n \<noteq> 0x2B" "upper_hex_digit n \<noteq> 0x26" "upper_hex_digit n \<noteq> 0x3D"
    "upper_hex_digit n \<noteq> 0x3F" "upper_hex_digit n \<noteq> 0x25"
    using assms u by (auto dest!: arg_cong [where f = unat] split: if_splits)
qed

lemma form_safe_props:
  assumes "form_safe b"
  shows "unat (ucast b :: 16 word) < 0x80" "(ucast b :: 16 word) \<noteq> 0x2B"
    "(ucast b :: 16 word) \<noteq> 0x26" "(ucast b :: 16 word) \<noteq> 0x3D"
    "(ucast b :: 16 word) \<noteq> 0x3F" "(ucast b :: 16 word) \<noteq> 0x25"
proof -
  have u: "unat (ucast b :: 16 word) = unat b" by (rule unat_ucast_8_16)
  from assms have "unat b < 0x80" "unat b \<noteq> 0x2B" "unat b \<noteq> 0x26" "unat b \<noteq> 0x3D"
    "unat b \<noteq> 0x3F" "unat b \<noteq> 0x25"
    by (auto simp: form_safe_def)
  then show "unat (ucast b :: 16 word) < 0x80" "(ucast b :: 16 word) \<noteq> 0x2B"
    "(ucast b :: 16 word) \<noteq> 0x26" "(ucast b :: 16 word) \<noteq> 0x3D"
    "(ucast b :: 16 word) \<noteq> 0x3F" "(ucast b :: 16 word) \<noteq> 0x25"
    using u by (auto dest!: arg_cong [where f = unat])
qed

lemma byte_digits: "unat (b :: 8 word) div 16 < 16" "unat b mod 16 < 16"
  using unat_lt_256 [of b] by simp_all

lemma encode_byte_set:
  assumes "x \<in> set (encode_byte b)"
  shows "unat x < 0x80" "x \<noteq> 0x26" "x \<noteq> 0x3D" "x \<noteq> 0x3F"
  using assms form_safe_props [of b] upper_hex_digit_props [OF byte_digits(1) [of b]]
    upper_hex_digit_props [OF byte_digits(2) [of b]]
  by (auto simp: encode_byte_def split: if_splits)

lemma encodeStr_set:
  assumes "x \<in> set (encodeStr s)"
  shows "unat x < 0x80" "x \<noteq> 0x26" "x \<noteq> 0x3D" "x \<noteq> 0x3F"
proof -
  from assms obtain b where b: "x \<in> set (encode_byte b)"
    by (auto simp: encodeStr_def)
  show "unat x < 0x80" "x \<noteq> 0x26" "x \<noteq> 0x3D" "x \<noteq> 0x3F"
    using encode_byte_set [OF b] by blast+
qed

text \<open>The escape of a byte, and reading escapes back.\<close>

lemma hex_octet_digits:
  "hex_octet (upper_hex_digit (unat b div 16)) (upper_hex_digit (unat b mod 16)) = unat b"
  for b :: "8 word"
  using upper_hex_digit_props(2) [OF byte_digits(1) [of b]]
    upper_hex_digit_props(2) [OF byte_digits(2) [of b]]
  by (simp add: hex_octet_def)

lemma escapes_escaped:
  fixes bs :: "8 word list"
  shows "escapes (length bs)
     (concat (map (\<lambda>b. [0x25, upper_hex_digit (unat b div 16), upper_hex_digit (unat b mod 16)])
        bs) @ r)
   = Some (map unat bs, r)"
proof (induction bs)
  case Nil
  show ?case by simp
next
  case (Cons b bs)
  then show ?case
    using upper_hex_digit_props(1) [OF byte_digits(1) [of b]]
      upper_hex_digit_props(1) [OF byte_digits(2) [of b]]
    by (simp add: hex_octet_digits)
qed

lemma encode_byte_high:
  "0x80 \<le> unat b \<Longrightarrow>
   encode_byte b = [0x25, upper_hex_digit (unat b div 16), upper_hex_digit (unat b mod 16)]"
  by (auto simp: encode_byte_def form_safe_def)

lemma utf8_enc_cp_shape:
  assumes "scalar c" and "0x80 \<le> c"
  shows "list_all (\<lambda>b. 0x80 \<le> unat b) (utf8_enc_cp c)
    \<and> utf8_enc_cp c \<noteq> []
    \<and> sequence_length (unat (hd (utf8_enc_cp c))) = Some (length (utf8_enc_cp c))"
proof -
  consider "c < 0x800" | "0x800 \<le> c" "c < 0x10000" | "0x10000 \<le> c" "c < 0x110000"
    using assms unfolding scalar_def by linarith
  then show ?thesis
  proof cases
    case 1
    define b1 where "b1 = 0xC0 + c div 64"
    define b2 where "b2 = 0x80 + c mod 64"
    have r: "0xC0 \<le> b1" "b1 \<le> 0xDF" "0x80 \<le> b2" "b2 \<le> 0xBF"
      using 1 assms(2) by (simp_all add: b1_def b2_def)
    have "utf8_enc_cp c = [of_nat b1, of_nat b2]"
      using 1 assms(2) by (simp add: utf8_enc_cp_def b1_def b2_def)
    then show ?thesis
      using r by (simp add: unat8 sequence_length_def)
  next
    case 2
    define b1 where "b1 = 0xE0 + c div 4096"
    define b2 where "b2 = 0x80 + c div 64 mod 64"
    define b3 where "b3 = 0x80 + c mod 64"
    have r: "0xE0 \<le> b1" "b1 \<le> 0xEF" "0x80 \<le> b2" "b2 \<le> 0xBF" "0x80 \<le> b3" "b3 \<le> 0xBF"
      using 2 by (simp_all add: b1_def b2_def b3_def)
    have "utf8_enc_cp c = [of_nat b1, of_nat b2, of_nat b3]"
      using 2 by (simp add: utf8_enc_cp_def b1_def b2_def b3_def)
    then show ?thesis
      using r by (simp add: unat8 sequence_length_def)
  next
    case 3
    define b1 where "b1 = 0xF0 + c div 262144"
    define b2 where "b2 = 0x80 + c div 4096 mod 64"
    define b3 where "b3 = 0x80 + c div 64 mod 64"
    define b4 where "b4 = 0x80 + c mod 64"
    have r: "0xF0 \<le> b1" "b1 \<le> 0xF4" "0x80 \<le> b2" "b2 \<le> 0xBF" "0x80 \<le> b3" "b3 \<le> 0xBF"
         "0x80 \<le> b4" "b4 \<le> 0xBF"
      using 3 by (simp_all add: b1_def b2_def b3_def b4_def)
    have "utf8_enc_cp c = [of_nat b1, of_nat b2, of_nat b3, of_nat b4]"
      using 3 by (simp add: utf8_enc_cp_def b1_def b2_def b3_def b4_def)
    then show ?thesis
      using r by (simp add: unat8 sequence_length_def)
  qed
qed

lemma code_point_enc: "scalar c \<Longrightarrow> code_point (map unat (utf8_enc_cp c)) = Some c"
  using utf8_decode_enc [of c "[]"] by (simp add: code_point_def)

lemma plus_to_space_append: "plus_to_space (a @ b) = plus_to_space a @ plus_to_space b"
  by (simp add: plus_to_space_def)

lemma plus_to_space_id: "0x2B \<notin> set s \<Longrightarrow> plus_to_space s = s"
  by (induction s) (auto simp: plus_to_space_def)

lemma decode_escaped:
  assumes "scalar c" and "0x80 \<le> c"
  shows "decodeURIComponent (concat (map encode_byte (utf8_enc_cp c)) @ r)
    = (case decodeURIComponent r of None \<Rightarrow> None | Some t \<Rightarrow> Some (utf16_enc_cp c @ t))"
proof -
  let ?esc = "\<lambda>b :: 8 word. [0x25, upper_hex_digit (unat b div 16), upper_hex_digit (unat b mod 16)]"
  note sh = utf8_enc_cp_shape [OF assms]
  from sh obtain b bs where bs: "utf8_enc_cp c = b # bs" by (cases "utf8_enc_cp c") auto
  have e: "map encode_byte (utf8_enc_cp c) = map ?esc (utf8_enc_cp c)"
    using sh by (simp add: list_all_iff encode_byte_high)
  let ?s = "upper_hex_digit (unat b div 16) # upper_hex_digit (unat b mod 16) # concat (map ?esc bs) @ r"
  have s: "concat (map encode_byte (utf8_enc_cp c)) @ r = 0x25 # ?s"
    unfolding e unfolding bs by simp
  have 1: "escapes (Suc 0) (0x25 # ?s) = Some ([unat b], concat (map ?esc bs) @ r)"
    using escapes_escaped [of "[b]" "concat (map ?esc bs) @ r"] by simp
  have 2: "sequence_length (unat b) = Some (Suc (length bs))"
    using sh by (simp add: bs)
  have 3: "escapes (Suc (length bs)) (0x25 # ?s) = Some (unat b # map unat bs, r)"
    using escapes_escaped [of "b # bs" r] by simp
  have 4: "code_point (unat b # map unat bs) = Some c"
    using code_point_enc [OF assms(1)] by (simp add: bs)
  show ?thesis
    unfolding s by (simp add: 1 2 3 4 del: escapes.simps)
qed

lemma decode_ascii:
  assumes "c < 0x80"
  shows "decodeURIComponent (plus_to_space (encode_byte (of_nat c)) @ r)
    = (case decodeURIComponent r of None \<Rightarrow> None | Some t \<Rightarrow> Some (of_nat c # t))"
proof -
  let ?b = "of_nat c :: 8 word"
  have u: "unat ?b = c" using assms by (simp add: unat8)
  consider "?b = 0x20" | "?b \<noteq> 0x20" "form_safe ?b" | "?b \<noteq> 0x20" "\<not> form_safe ?b" by blast
  then show ?thesis
  proof cases
    case 1
    then have "unat ?b = unat (0x20 :: 8 word)" by simp
    then have "c = 0x20" using u by simp
    then have "(of_nat c :: 16 word) = 0x20" by simp
    with 1 show ?thesis by (simp add: encode_byte_def plus_to_space_def split: option.splits)
  next
    case 2
    have "unat (ucast ?b :: 16 word) = unat (of_nat c :: 16 word)"
      using u assms unat16 [of c] by (simp add: unat_ucast_8_16)
    then have "(ucast ?b :: 16 word) = of_nat c" by (simp only: word_unat_eq_iff)
    with 2 form_safe_props [OF 2(2)] show ?thesis
      by (simp add: encode_byte_def plus_to_space_def split: option.splits)
  next
    case 3
    let ?s = "upper_hex_digit (c div 16) # upper_hex_digit (c mod 16) # r"
    have d: "c div 16 < 16" "c mod 16 < 16" using assms by simp_all
    note h1 = upper_hex_digit_props [OF d(1)] and h2 = upper_hex_digit_props [OF d(2)]
    have p: "plus_to_space (encode_byte ?b) @ r = 0x25 # ?s"
      using 3 h1 h2 by (simp add: encode_byte_def plus_to_space_def u)
    have 1: "escapes (Suc 0) (0x25 # ?s) = Some ([c], r)"
      using h1 h2 by (simp add: hex_octet_def)
    have 2: "sequence_length c = Some (Suc 0)" using assms by (simp add: sequence_length_def)
    have 4: "code_point [c] = Some c"
      using code_point_enc [of c] assms by (simp add: scalar_def utf8_enc_cp_def unat8)
    have 5: "utf16_enc_cp c = [of_nat c]" using assms by (simp add: utf16_enc_cp_def)
    show ?thesis
      unfolding p by (simp add: 1 2 4 5 del: escapes.simps split: option.splits)
  qed
qed


lemma decode_encoded:
  assumes "list_all scalar cs"
  shows "decodeURIComponent (plus_to_space (concat (map encode_byte (concat (map utf8_enc_cp cs)))))
    = Some (utf16_encode cs)"
  using assms
proof (induction cs)
  case Nil
  show ?case by (simp add: plus_to_space_def utf16_encode_def)
next
  case (Cons c cs)
  let ?rest = "plus_to_space (concat (map encode_byte (concat (map utf8_enc_cp cs))))"
  from Cons have r: "decodeURIComponent ?rest = Some (utf16_encode cs)" and c: "scalar c"
    by simp_all
  show ?case
  proof (cases "c < 0x80")
    case True
    then have "utf8_enc_cp c = [of_nat c]" "utf16_enc_cp c = [of_nat c]"
      by (simp_all add: utf8_enc_cp_def utf16_enc_cp_def)
    then show ?thesis
      using decode_ascii [OF True, of ?rest] r
      by (simp add: plus_to_space_append utf16_encode_def)
  next
    case False
    then have h: "0x80 \<le> c" by simp
    let ?e = "concat (map encode_byte (utf8_enc_cp c))"
    have "0x2B \<notin> set ?e"
    proof
      assume "0x2B \<in> set ?e"
      then obtain b where b: "b \<in> set (utf8_enc_cp c)" "0x2B \<in> set (encode_byte b)" by auto
      from utf8_enc_cp_shape [OF c h] b(1) have "0x80 \<le> unat b" by (simp add: list_all_iff)
      from b(2) show False
        unfolding encode_byte_high [OF \<open>0x80 \<le> unat b\<close>]
        using upper_hex_digit_props(4) [OF byte_digits(1) [of b]]
          upper_hex_digit_props(4) [OF byte_digits(2) [of b]]
        by simp
    qed
    then have "plus_to_space ?e = ?e" by (rule plus_to_space_id)
    then show ?thesis
      using decode_escaped [OF c h, of ?rest] r
      by (simp add: plus_to_space_append utf16_encode_def)
  qed
qed

lemma decode_encodeStr:
  assumes "well_formed s"
  shows "decodeURIComponent (plus_to_space (encodeStr s)) = Some s"
  using decode_encoded [OF utf16_decode_scalar [of s]] assms
  by (simp add: encodeStr_def utf8_def well_formed_def to_usv_def)

lemma percent_seen:
  "0x25 \<in> set (concat (map encode_byte bs))
   \<Longrightarrow> escape_seen (filter (\<lambda>u. u \<noteq> 0x2B) (concat (map encode_byte bs)))"
proof (induction bs)
  case Nil
  then show ?case by simp
next
  case (Cons b bs)
  note h1 = upper_hex_digit_props [OF byte_digits(1) [of b]]
    and h2 = upper_hex_digit_props [OF byte_digits(2) [of b]]
  consider "b = 0x20" | "b \<noteq> 0x20" "form_safe b" | "b \<noteq> 0x20" "\<not> form_safe b" by blast
  then show ?case
  proof cases
    case 1
    with Cons show ?thesis by (simp add: encode_byte_def)
  next
    case 2
    with Cons form_safe_props [OF 2(2)] show ?thesis
      by (simp add: encode_byte_def escape_seen_skip)
  next
    case 3
    with h1 h2 show ?thesis by (simp add: encode_byte_def)
  qed
qed

lemma decode_no_percent: "0x25 \<notin> set t \<Longrightarrow> decodeURIComponent t = Some t"
  by (induction t) simp_all

lemma percent_plus_to_space: "(0x25 \<in> set (plus_to_space s)) = (0x25 \<in> set s)"
  by (induction s) (auto simp: plus_to_space_def)

lemma decode_component_encodeStr:
  assumes "well_formed s"
  shows "decode_component (encodeStr s) = s"
proof (cases "escape_seen (filter (\<lambda>u. u \<noteq> 0x2B) (encodeStr s))")
  case True
  then show ?thesis
    by (simp add: decode_component_def unescape_def decode_encodeStr [OF assms])
next
  case False
  then have "0x25 \<notin> set (encodeStr s)"
    using percent_seen [of "utf8 s"] by (auto simp: encodeStr_def)
  then have "decodeURIComponent (plus_to_space (encodeStr s)) = Some (plus_to_space (encodeStr s))"
    by (intro decode_no_percent) (simp add: percent_plus_to_space)
  with decode_encodeStr [OF assms] False show ?thesis
    by (simp add: decode_component_def)
qed

lemma parse_pair_serialize_pair:
  assumes "well_formed (fst p)" and "well_formed (snd p)"
  shows "parse_pair (serialize_pair p) = p"
proof -
  have n: "0x3D \<notin> set (encodeStr (fst p))" using encodeStr_set(3) by blast
  have "takeWhile (\<lambda>u. u \<noteq> d) (k @ d # v) = k \<and> dropWhile (\<lambda>u. u \<noteq> d) (k @ d # v) = d # v"
    if "d \<notin> set k" for d :: "16 word" and k v
    using that by (induction k) auto
  from this [OF n] show ?thesis
    using assms by (simp add: parse_pair_def serialize_pair_def decode_component_encodeStr)
qed

lemma serialize_pair_set:
  assumes "x \<in> set (serialize_pair p)"
  shows "unat x < 0x80" "x \<noteq> 0x26" "x \<noteq> 0x3F"
  using assms encodeStr_set [of x "fst p"] encodeStr_set [of x "snd p"]
  by (auto simp: serialize_pair_def)

lemma serialize_pair_nonempty: "serialize_pair p \<noteq> []"
  by (simp add: serialize_pair_def)

lemma serializeParams_set:
  "x \<in> set (serializeParams ps) \<Longrightarrow> unat x < 0x80 \<and> x \<noteq> 0x3F"
  by (induction ps rule: serializeParams.induct) (auto dest: serialize_pair_set)

lemma serializeParams_empty: "(serializeParams ps = []) = (ps = [])"
  by (induction ps rule: serializeParams.induct) (simp_all add: serialize_pair_nonempty)

lemma parse_pieces_serializeParams:
  "all_well_formed ps \<Longrightarrow> ps \<noteq> [] \<Longrightarrow> parse_pieces (serializeParams ps) = ps"
proof (induction ps rule: serializeParams.induct)
  case 1
  then show ?case by simp
next
  case (2 p)
  have "0x26 \<notin> set (serialize_pair p)" using serialize_pair_set(2) by blast
  with 2 show ?case
    by (simp add: parse_pieces_def split_on_none serialize_pair_nonempty
        parse_pair_serialize_pair all_well_formed_def)
next
  case (3 p q r)
  have "0x26 \<notin> set (serialize_pair p)" using serialize_pair_set(2) by blast
  then have "split_on 0x26 (serializeParams (p # q # r))
      = serialize_pair p # split_on 0x26 (serializeParams (q # r))"
    by (simp add: split_on_append)
  with 3 show ?case
    by (simp add: parse_pieces_def serialize_pair_nonempty parse_pair_serialize_pair
        all_well_formed_def)
qed

lemma from_string_toString:
  assumes "all_well_formed ps"
  shows "from_string (params_toString ps) = ps"
proof (cases "ps = []")
  case True
  have "to_usv [] = []" by (rule to_usv_low) simp
  with True show ?thesis by (simp add: from_string_def params_toString_def)
next
  case False
  let ?s = "serializeParams ps"
  have u: "to_usv ?s = ?s"
    by (rule to_usv_low) (use serializeParams_set [of _ ps] in fastforce)
  have ne: "?s \<noteq> []" using False by (simp add: serializeParams_empty)
  then obtain c r where cr: "?s = c # r" by (cases ?s) auto
  then have "c \<noteq> 0x3F" using serializeParams_set [of c ps] by simp
  then have "(case ?s of [] \<Rightarrow> [] | c # r \<Rightarrow> if c = 0x3F then r else ?s) = ?s"
    by (simp add: cr)
  then show ?thesis
    using ne parse_pieces_serializeParams [OF assms False]
    by (simp add: from_string_def params_toString_def u parseParams_pieces Let_def)
qed

lemma URLSearchParams_toString:
  "all_well_formed ps \<Longrightarrow> URLSearchParams (Str (params_toString ps)) = Inr ps"
  by (simp add: URLSearchParams_def from_string_toString)

subsection \<open>Literals and hexadecimal digests\<close>

lemma hex_digit_lt: "n < 16 \<Longrightarrow> unat (hex_digit n) < 0x80"
  using unat16 [of "0x30 + n"] unat16 [of "0x57 + n"] by (simp add: hex_digit_def)

lemma hex_low: "u \<in> set (hex bs) \<Longrightarrow> unat u < 0x80"
proof -
  assume "u \<in> set (hex bs)"
  then obtain b :: "8 word" where "u = hex_digit (unat b div 16) \<or> u = hex_digit (unat b mod 16)"
    by (auto simp: hex_def)
  moreover have "unat b div 16 < 16" "unat b mod 16 < 16"
    using unat_lt_256 [of b] by simp_all
  ultimately show ?thesis using hex_digit_lt by blast
qed

lemma to_usv_hex: "to_usv (hex bs) = hex bs"
  by (rule to_usv_low) (auto dest: hex_low)

lemma well_formed_hex: "well_formed (hex bs)"
  by (simp add: well_formed_def to_usv_hex)

lemma to_usv_hash: "to_usv (js ''hash'') = js ''hash''"
  by (rule to_usv_low) (simp add: js_def)

lemma to_usv_client_id: "to_usv (js ''client_id'') = js ''client_id''"
  by (rule to_usv_low) (simp add: js_def)

lemma client_id_neq_hash: "js ''client_id'' \<noteq> js ''hash''"
  by (simp add: js_def)

subsection \<open>The constructor\<close>

lemma sequence_Inr:
  "sequence xs = Inr ys \<Longrightarrow> length ys = length xs \<and> (\<forall>i < length xs. xs ! i = Inr (ys ! i))"
proof (induction xs arbitrary: ys)
  case Nil
  then show ?case by simp
next
  case (Cons x xs)
  from Cons.prems obtain a as where
    x: "x = Inr a" "sequence xs = Inr as" "ys = a # as"
    by (auto split: sum.splits)
  from Cons.IH [OF x(2)] show ?case
    by (auto simp: x nth_Cons split: nat.splits)
qed

lemma sequence_all:
  assumes "sequence (map f xs) = Inr ys" and "\<And>x y. f x = Inr y \<Longrightarrow> P y"
  shows "list_all P ys"
proof -
  from sequence_Inr [OF assms(1)] have l: "length ys = length xs"
    and n: "\<forall>i < length xs. f (xs ! i) = Inr (ys ! i)"
    by simp_all
  show ?thesis
    unfolding list_all_length using l n assms(2) by auto
qed

lemma from_pair_well_formed:
  "from_pair x = Inr p \<Longrightarrow> well_formed (fst p) \<and> well_formed (snd p)"
  by (auto simp: from_pair_def well_formed_to_usv split: jsvalue.splits list.splits sum.splits)

lemma from_record_well_formed:
  "from_record props acc = Inr ps \<Longrightarrow> all_well_formed acc \<Longrightarrow> all_well_formed ps"
proof (induction props acc arbitrary: ps rule: from_record.induct)
  case (1 acc)
  then show ?case by simp
next
  case (2 key v props acc)
  from "2.prems"(1) obtain s where s: "ToString v = Inr s"
    by (auto split: sum.splits)
  let ?acc = "if to_usv key \<in> fst ` set acc
      then map (\<lambda>p. if fst p = to_usv key then (to_usv key, to_usv s) else p) acc
      else acc @ [(to_usv key, to_usv s)]"
  from "2.prems"(1) s have r: "from_record props ?acc = Inr ps"
    by (simp add: Let_def)
  have "all_well_formed ?acc"
    using "2.prems"(2) by (auto simp: all_well_formed_def list_all_iff well_formed_to_usv)
  from "2.IH" [OF s refl refl r this] show ?case .
qed

lemma all_well_formed_parse: "URLSearchParams v = Inr ps \<Longrightarrow> all_well_formed ps"
proof (cases v)
  case (Array pairs)
  assume "URLSearchParams v = Inr ps"
  with Array have "sequence (map from_pair pairs) = Inr ps" by (simp add: URLSearchParams_def)
  from sequence_all [OF this, of "\<lambda>p. well_formed (fst p) \<and> well_formed (snd p)"]
  show ?thesis
    by (simp add: all_well_formed_def from_pair_well_formed)
next
  case (Object props)
  assume "URLSearchParams v = Inr ps"
  with Object have "from_record props [] = Inr ps" by (simp add: URLSearchParams_def)
  from from_record_well_formed [OF this] show ?thesis by (simp add: all_well_formed_def)
qed (use all_well_formed_from_string in \<open>auto simp: URLSearchParams_def all_well_formed_def\<close>)

lemma URLSearchParams_Str: "URLSearchParams (Str s) = Inr (from_string s)"
  by (simp add: URLSearchParams_def)

subsection \<open>The handler, case by case\<close>

lemma verifyInitData_eq:
  "verifyInitData h e (Some v) =
     (case URLSearchParams v of
        Inl error \<Rightarrow> ServerError
      | Inr ps \<Rightarrow>
          (case BOT_TOKEN e of
             None \<Rightarrow> ServerError
           | Some tok \<Rightarrow>
               if \<not> verify_pairs h tok ps then InvalidInitData
               else (case CLIENT_SECRET e of
                       None \<Rightarrow> ServerError
                     | Some cs \<Rightarrow>
                         Success (params_toString
                           (augmented e ps
                            @ [(js ''hash'',
                                sign h (dataCheckString (augmented e ps)) (derive_key h cs))])))))"
  by (simp add: verifyInitData_def try_block_def hmac_digest_def verify_pairs_def check_string_def
      augmented_def sign_def derive_key_def params_append_def to_string_def to_usv_hash
      to_usv_hex Let_def split: option.splits sum.splits)

lemma verifyInitData_pairs:
  assumes "URLSearchParams v = Inr ps"
  shows "verifyInitData h e (Some v) =
     (case BOT_TOKEN e of
        None \<Rightarrow> ServerError
      | Some tok \<Rightarrow>
          if \<not> verify_pairs h tok ps then InvalidInitData
          else (case CLIENT_SECRET e of
                  None \<Rightarrow> ServerError
                | Some cs \<Rightarrow>
                    Success (params_toString
                      (augmented e ps
                       @ [(js ''hash'',
                           sign h (dataCheckString (augmented e ps)) (derive_key h cs))]))))"
  by (simp add: verifyInitData_eq assms)

lemma verify_pairs: "URLSearchParams v = Inr ps \<Longrightarrow> verify h secret v = verify_pairs h secret ps"
  by (simp add: verify_def)

subsection \<open>The check string\<close>

lemma foldl_lines:
  "foldl (\<lambda>acc (key, val). acc @ key @ [0x3D] @ val @ [0x0A]) a ps
     = a @ concat (map (\<lambda>p. line p @ [0x0A]) ps)"
  by (induction ps arbitrary: a) (auto simp: line_def)

lemma butlast_lines: "butlast (concat (map (\<lambda>p. line p @ [0x0A]) ps)) = join [0x0A] (map line ps)"
proof (induction ps rule: induct_list012)
  case 1
  show ?case by simp
next
  case (2 p)
  show ?case by (simp add: butlast_append)
next
  case (3 p q r)
  then show ?case by (simp add: butlast_append)
qed

lemma dataCheckString_join: "dataCheckString ps = join [0x0A] (map line ps)"
  unfolding dataCheckString_def foldl_lines by (simp add: butlast_lines)

subsection \<open>Sorting and the \<open>hash\<close> pair\<close>

lemma params_sort_sorted: "sorted (map fst (params_sort ps))"
  by (simp add: params_sort_def)

lemma params_sort_id: "sorted (map fst ps) \<Longrightarrow> params_sort ps = ps"
  by (simp add: params_sort_def sort_key_id_if_sorted)

lemma mset_params_sort: "mset (params_sort ps) = mset ps"
  by (simp add: params_sort_def)

lemma set_params_sort: "set (params_sort ps) = set ps"
  by (simp add: params_sort_def)

lemma params_delete_snoc:
  "\<forall>p \<in> set ps. fst p \<noteq> name \<Longrightarrow> params_delete (ps @ [(name, v)]) name = ps"
  by (simp add: params_delete_def)

lemma params_get_snoc:
  "\<forall>p \<in> set ps. fst p \<noteq> name \<Longrightarrow> params_get (ps @ [(name, v)]) name = Some v"
  by (induction ps) (auto simp: params_get_def)


lemma augmented_no_hash: "\<forall>p \<in> set (augmented e ps). fst p \<noteq> js ''hash''"
  by (auto simp: augmented_def set_params_sort params_append_def params_delete_def
      to_usv_client_id client_id_neq_hash)

lemma augmented_sorted: "sorted (map fst (augmented e ps))"
  by (simp add: augmented_def params_sort_sorted)

lemma mset_augmented:
  "mset (augmented e ps) = mset (params_delete ps (js ''hash''))
     + {#(js ''client_id'', to_usv (to_string (CLIENT_ID e)))#}"
  by (simp add: augmented_def mset_params_sort params_append_def to_usv_client_id)

lemma all_well_formed_augmented:
  "all_well_formed ps \<Longrightarrow> all_well_formed (augmented e ps)"
  by (auto simp: all_well_formed_def list_all_iff augmented_def set_params_sort
      params_append_def params_delete_def well_formed_to_usv)

lemma check_string_reissued:
  "check_string (augmented e ps @ [(js ''hash'', H)]) = dataCheckString (augmented e ps)"
  by (simp add: check_string_def params_delete_snoc augmented_no_hash params_sort_id
      augmented_sorted)

lemma parse_reissued:
  assumes "all_well_formed ps"
  shows "URLSearchParams (Str (params_toString (augmented e ps @ [(js ''hash'', hex d)])))
           = Inr (augmented e ps @ [(js ''hash'', hex d)])"
proof (rule URLSearchParams_toString)
  have "well_formed (js ''hash'')" by (simp add: well_formed_def to_usv_hash)
  then show "all_well_formed (augmented e ps @ [(js ''hash'', hex d)])"
    using all_well_formed_augmented [OF assms, of e]
    by (simp add: all_well_formed_def well_formed_hex)
qed

subsection \<open>What a successful response holds\<close>

lemma hex_digit_lower: "n < 16 \<Longrightarrow> hex_digit n \<in> set (js ''0123456789abcdef'')"
proof -
  assume "n < 16"
  then consider "n = 0" | "n = 1" | "n = 2" | "n = 3" | "n = 4" | "n = 5" | "n = 6" | "n = 7"
    | "n = 8" | "n = 9" | "n = 10" | "n = 11" | "n = 12" | "n = 13" | "n = 14" | "n = 15"
    by atomize_elim presburger
  then show ?thesis by cases (simp_all add: hex_digit_def js_def)
qed

lemma hex_lowercase: "set (hex d) \<subseteq> set (js ''0123456789abcdef'')"
proof
  fix u assume "u \<in> set (hex d)"
  then obtain b :: "8 word" where "u = hex_digit (unat b div 16) \<or> u = hex_digit (unat b mod 16)"
    by (auto simp: hex_def)
  moreover have "unat b div 16 < 16" "unat b mod 16 < 16"
    using unat_lt_256 [of b] by simp_all
  ultimately show "u \<in> set (js ''0123456789abcdef'')" using hex_digit_lower by blast
qed

lemma length_hex: "length (hex d) = 2 * length d"
  by (induction d) (simp_all add: hex_def)

lemma success_parse:
  assumes "verifyInitData h e (Some v) = Success out"
  shows "\<exists>ps tok cs. URLSearchParams v = Inr ps \<and> BOT_TOKEN e = Some tok
    \<and> CLIENT_SECRET e = Some cs \<and> verify_pairs h tok ps
    \<and> out = params_toString (augmented e ps
         @ [(js ''hash'', sign h (dataCheckString (augmented e ps)) (derive_key h cs))])
    \<and> URLSearchParams (Str out) = Inr (augmented e ps
         @ [(js ''hash'', sign h (dataCheckString (augmented e ps)) (derive_key h cs))])"
proof -
  from assms obtain ps where ps: "URLSearchParams v = Inr ps"
    by (auto simp: verifyInitData_eq split: sum.splits)
  from assms parse_reissued [OF all_well_formed_parse [OF ps], of e] show ?thesis
    by (auto simp: verifyInitData_pairs [OF ps] ps sign_def split: option.splits if_splits)
qed

lemma mset_delete_single:
  "filter (\<lambda>p. fst p = name) ps = [x] \<Longrightarrow> mset (params_delete ps name) = mset ps - {#x#}"
proof -
  assume a: "filter (\<lambda>p. fst p = name) ps = [x]"
  have "mset ps = mset (filter (\<lambda>p. fst p = name) ps) + mset (filter (\<lambda>p. fst p \<noteq> name) ps)"
    by (induction ps) simp_all
  then have "mset ps = {#x#} + mset (params_delete ps name)"
    unfolding a params_delete_def by simp
  then show ?thesis by (metis add_diff_cancel_left')
qed

subsection \<open>Canonicalization\<close>

lemma check_string_join:
  "check_string ps = join [0x0A] (map line (sort_key fst (params_delete ps (js ''hash''))))"
  by (simp add: check_string_def dataCheckString_join params_sort_def)

lemma utf8_ascii: "\<forall>u \<in> set s. unat u < 0x80 \<Longrightarrow> utf8 s = map ucast s"
proof -
  assume a: "\<forall>u \<in> set s. unat u < 0x80"
  then have "utf16_decode s = map unat s" by (intro utf16_decode_low) auto
  moreover have "concat (map utf8_enc_cp (map unat s)) = map ucast s"
    using a by (induction s) (auto simp: utf8_enc_cp_def)
  ultimately show ?thesis by (simp add: utf8_def)
qed

lemma unat_ucast_16_8: "unat u < 0x80 \<Longrightarrow> unat (ucast (u :: 16 word) :: 8 word) = unat u"
  by (simp add: unsigned_ucast_eq take_bit_nat_eq_self_iff)

lemma ucast_less_ascii:
  "unat a < 0x80 \<Longrightarrow> unat b < 0x80 \<Longrightarrow> ((ucast (a :: 16 word) :: 8 word) < ucast b) = (a < b)"
  by (simp add: word_less_nat_alt unat_ucast_16_8)

lemma ucast_eq_ascii:
  "unat a < 0x80 \<Longrightarrow> unat b < 0x80 \<Longrightarrow> ((ucast (a :: 16 word) :: 8 word) = ucast b) = (a = b)"
  by (metis unat_ucast_16_8 word_unat_eq_iff)

lemma map_ucast_less_ascii:
  "\<forall>u \<in> set a. unat u < 0x80 \<Longrightarrow> \<forall>u \<in> set b. unat u < 0x80
   \<Longrightarrow> ((map ucast (a :: 16 word list) :: 8 word list) < map ucast b) = (a < b)"
proof (induction a arbitrary: b)
  case Nil
  then show ?case by (cases b) simp_all
next
  case (Cons x a)
  then show ?case
    by (cases b) (simp_all add: ucast_less_ascii ucast_eq_ascii)
qed

lemma map_ucast_eq_ascii:
  "\<forall>u \<in> set a. unat u < 0x80 \<Longrightarrow> \<forall>u \<in> set b. unat u < 0x80
   \<Longrightarrow> ((map ucast (a :: 16 word list) :: 8 word list) = map ucast b) = (a = b)"
proof (induction a arbitrary: b)
  case Nil
  then show ?case by (cases b) simp_all
next
  case (Cons x a)
  then show ?case
    by (cases b) (simp_all add: ucast_eq_ascii)
qed

lemma utf8_le_ascii:
  assumes "\<forall>u \<in> set a. unat u < 0x80" "\<forall>u \<in> set b. unat u < 0x80"
  shows "(utf8 a \<le> utf8 b) = (a \<le> b)"
  using assms map_ucast_less_ascii [OF assms] map_ucast_eq_ascii [OF assms]
  by (simp add: utf8_ascii le_less)

lemma utf8_eq_ascii:
  assumes "\<forall>u \<in> set a. unat u < 0x80" "\<forall>u \<in> set b. unat u < 0x80"
  shows "(utf8 a = utf8 b) = (a = b)"
  using assms map_ucast_eq_ascii [OF assms] by (simp add: utf8_ascii)

lemma sort_key_utf8_ascii:
  assumes "ascii_keys qs"
  shows "sort_key (\<lambda>p. utf8 (fst p)) qs = sort_key fst qs"
proof (rule properties_for_sort_key)
  have k: "\<forall>u \<in> set (fst p). unat u < 0x80" if "p \<in> set qs" for p
    using assms that by (auto simp: ascii_keys_def list_all_iff)
  show "mset (sort_key fst qs) = mset qs" by simp
  show "sorted (map (\<lambda>p. utf8 (fst p)) (sort_key fst qs))"
  proof -
    have "sorted (map fst (sort_key fst qs))" by simp
    then have "sorted_wrt (\<lambda>p q. fst p \<le> fst q) (sort_key fst qs)"
      by (simp add: sorted_map)
    then have "sorted_wrt (\<lambda>p q. utf8 (fst p) \<le> utf8 (fst q)) (sort_key fst qs)"
      by (rule sorted_wrt_mono_rel [rotated]) (simp add: utf8_le_ascii k)
    then show ?thesis by (simp add: sorted_map)
  qed
  show "filter (\<lambda>x. utf8 (fst p) = utf8 (fst x)) (sort_key fst qs)
      = filter (\<lambda>x. utf8 (fst p) = utf8 (fst x)) qs" if "p \<in> set (sort_key fst qs)" for p
  proof -
    from that have p: "p \<in> set qs" by simp
    have "filter (\<lambda>x. utf8 (fst p) = utf8 (fst x)) ys = filter (\<lambda>x. fst x = fst p) ys"
      if "set ys \<subseteq> set qs" for ys
    proof (intro filter_cong refl)
      fix x assume "x \<in> set ys"
      with that have "x \<in> set qs" by blast
      then show "(utf8 (fst p) = utf8 (fst x)) = (fst x = fst p)"
        using utf8_eq_ascii [OF k [OF p] k [of x]] by auto
    qed
    from this [of qs] this [of "sort_key fst qs"] show ?thesis
      by (simp add: sort_key_stable)
  qed
qed

lemma ascii_keys_delete: "ascii_keys ps \<Longrightarrow> ascii_keys (params_delete ps name)"
  by (auto simp: ascii_keys_def params_delete_def list_all_iff)

lemma check_string_bytewise_ascii:
  "ascii_keys ps \<Longrightarrow> check_string ps = canonical_bytewise ps"
  using sort_key_utf8_ascii [OF ascii_keys_delete, of ps "js ''hash''"]
  by (simp add: check_string_join canonical_bytewise_def params_delete_def)

lemma filter_key_mset:
  fixes xs ys :: "('a \<times> 'b) list"
  assumes "\<And>k. filter (\<lambda>p. fst p = k) xs = filter (\<lambda>p. fst p = k) ys"
  shows "mset xs = mset ys"
proof (rule multiset_eqI)
  fix p :: "'a \<times> 'b"
  have c: "count (mset zs) p = count (mset (filter (\<lambda>q. fst q = fst p) zs)) p"
    for zs :: "('a \<times> 'b) list"
    by simp
  have "count (mset xs) p = count (mset (filter (\<lambda>q. fst q = fst p) xs)) p" by (rule c)
  also have "\<dots> = count (mset (filter (\<lambda>q. fst q = fst p) ys)) p" by (simp only: assms)
  also have "\<dots> = count (mset ys) p" by (rule c [symmetric])
  finally show "count (mset xs) p = count (mset ys) p" .
qed

lemma sort_key_same:
  fixes xs ys :: "('a :: linorder \<times> 'b) list"
  assumes "\<And>k. filter (\<lambda>p. fst p = k) xs = filter (\<lambda>p. fst p = k) ys"
  shows "sort_key fst xs = sort_key fst ys"
proof (rule properties_for_sort_key)
  show "mset (sort_key fst ys) = mset xs"
    using filter_key_mset [of ys xs] assms by simp
  show "sorted (map fst (sort_key fst ys))" by simp
  show "filter (\<lambda>x. fst p = fst x) (sort_key fst ys) = filter (\<lambda>x. fst p = fst x) xs"
    for p :: "'a \<times> 'b"
    using sort_key_stable [of fst "fst p" ys] assms [of "fst p"]
    by (simp add: eq_commute [of "fst p"])
qed

lemma filter_key_delete:
  "filter (\<lambda>p. fst p = k) (params_delete ps name)
     = (if k = name then [] else filter (\<lambda>p. fst p = k) ps)"
  by (induction ps) (auto simp: params_delete_def)

lemma distinct_keys_filter:
  fixes xs ys :: "('a \<times> 'b) list"
  assumes "mset xs = mset ys" and "distinct (map fst xs)"
  shows "filter (\<lambda>p. fst p = k) xs = filter (\<lambda>p. fst p = k) ys"
proof -
  have one: "length (filter (\<lambda>p. fst p = k) xs) \<le> 1"
    using assms(2) by (induction xs) (auto simp: filter_empty_conv image_iff)
  have m: "mset (filter (\<lambda>p. fst p = k) ys) = mset (filter (\<lambda>p. fst p = k) xs)"
    using assms(1) by (metis mset_filter)
  show ?thesis
  proof (cases "filter (\<lambda>p. fst p = k) xs")
    case Nil
    with m have "mset (filter (\<lambda>p. fst p = k) ys) = {#}" by simp
    then have "filter (\<lambda>p. fst p = k) ys = []" by (simp only: mset_zero_iff)
    with Nil show ?thesis by (simp only:)
  next
    case (Cons a r)
    with one have x: "filter (\<lambda>p. fst p = k) xs = [a]" by simp
    with m have "mset (filter (\<lambda>p. fst p = k) ys) = {#a#}" by simp
    then have "filter (\<lambda>p. fst p = k) ys = [a]" by (simp only: mset_single_iff)
    with x show ?thesis by simp
  qed
qed

subsection \<open>Signed credentials\<close>

lemma check_string_snoc_hash: "check_string (ps @ [(js ''hash'', H)]) = check_string ps"
  by (simp add: check_string_def params_delete_def)

lemma parse_signed_credential:
  assumes "all_well_formed ps"
  shows "URLSearchParams (Str (signed_credential h secret ps))
           = Inr (ps @ [(js ''hash'', sign h (check_string ps) (derive_key h secret))])"
  unfolding signed_credential_def
proof (rule URLSearchParams_toString)
  have "well_formed (js ''hash'')" by (simp add: well_formed_def to_usv_hash)
  then show "all_well_formed (ps @ [(js ''hash'', sign h (check_string ps) (derive_key h secret))])"
    using assms by (simp add: all_well_formed_def well_formed_hex sign_def)
qed

lemma verify_signed_credential:
  assumes "all_well_formed ps" and "\<forall>p \<in> set ps. fst p \<noteq> js ''hash''"
  shows "verify h secret (Str (signed_credential h secret ps))"
  using assms(2)
  by (simp add: verify_def verify_pairs_def parse_signed_credential [OF assms(1)] params_get_snoc
      check_string_snoc_hash)

lemma verifyInitData_signed_credential:
  assumes "all_well_formed ps" and "\<forall>p \<in> set ps. fst p \<noteq> js ''hash''"
    and "BOT_TOKEN e = Some tok" and "CLIENT_SECRET e = Some cs"
  shows "verifyInitData h e (Some (Str (signed_credential h tok ps)))
     = Success (params_toString
         (params_sort (ps @ [(js ''client_id'', to_usv (to_string (CLIENT_ID e)))])
          @ [(js ''hash'',
              sign h (dataCheckString
                  (params_sort (ps @ [(js ''client_id'', to_usv (to_string (CLIENT_ID e)))])))
                (derive_key h cs))]))"
proof -
  have "params_sort (params_sort ps @ [x]) = params_sort (ps @ [x])" for x
    unfolding params_sort_def
    by (rule sort_key_same) (simp add: sort_key_stable)
  then have a: "augmented e (ps @ [(js ''hash'', H)])
      = params_sort (ps @ [(js ''client_id'', to_usv (to_string (CLIENT_ID e)))])" for H
    using assms(2)
    by (simp add: augmented_def params_delete_def params_append_def to_usv_client_id)
  show ?thesis
    using assms(3,4) verify_signed_credential [OF assms(1,2), of h tok]
    by (simp add: verifyInitData_eq verify_def parse_signed_credential [OF assms(1)] a)
qed

subsection \<open>The order of the returned pairs\<close>

lemma filter_key_augmented:
  "filter (\<lambda>p. fst p = k) (augmented e ps)
     = filter (\<lambda>p. fst p = k)
         (params_delete ps (js ''hash'') @ [(js ''client_id'', to_usv (to_string (CLIENT_ID e)))])"
  by (simp add: augmented_def params_sort_def params_append_def sort_key_stable to_usv_client_id)

lemma ascii_client_id: "\<forall>u \<in> set (js ''client_id''). unat u < 0x80"
  by (simp add: js_def)

lemma bytewise_sorted_augmented:
  assumes "ascii_keys ps"
  shows "bytewise_sorted (augmented e ps)"
proof -
  let ?qs = "params_append (params_sort (params_delete ps (js ''hash''))) (js ''client_id'')
      (CLIENT_ID e)"
  have "ascii_keys ?qs"
    using assms ascii_client_id
    by (auto simp: ascii_keys_def list_all_iff params_append_def params_sort_def
        params_delete_def to_usv_client_id)
  then have "sort_key (\<lambda>p. utf8 (fst p)) ?qs = augmented e ps"
    by (simp add: sort_key_utf8_ascii augmented_def params_sort_def)
  moreover have "sorted (map (\<lambda>p. utf8 (fst p)) (sort_key (\<lambda>p. utf8 (fst p)) ?qs))"
    by (rule sorted_sort_key)
  ultimately show ?thesis by (simp add: bytewise_sorted_def)
qed

subsection \<open>Well-formed check strings and injective digests\<close>




lemma hex_digit_inj: "m < 16 \<Longrightarrow> n < 16 \<Longrightarrow> hex_digit m = hex_digit n \<Longrightarrow> m = n"
proof -
  assume a: "m < 16" "n < 16" "hex_digit m = hex_digit n"
  have u: "unat (hex_digit k) = (if k < 10 then 0x30 + k else 0x57 + k)" if "k < 16" for k
    using that unat16 [of "0x30 + k"] unat16 [of "0x57 + k"] by (simp add: hex_digit_def)
  from a(3) have "unat (hex_digit m) = unat (hex_digit n)" by simp
  then show ?thesis using a(1,2) by (simp add: u split: if_splits)
qed

lemma hex_inj: "hex a = hex b \<Longrightarrow> a = b"
proof (induction a arbitrary: b)
  case Nil
  then show ?case by (cases b) (simp_all add: hex_def)
next
  case (Cons x a)
  then obtain y b' where b: "b = y # b'" by (cases b) (simp_all add: hex_def)
  from Cons.prems have d: "hex_digit (unat x div 16) = hex_digit (unat y div 16)"
    "hex_digit (unat x mod 16) = hex_digit (unat y mod 16)" and r: "hex a = hex b'"
    by (simp_all add: b hex_def)
  have "unat x div 16 = unat y div 16" "unat x mod 16 = unat y mod 16"
    using d unat_lt_256 [of x] unat_lt_256 [of y] by (auto intro!: hex_digit_inj)
  then have "unat x = unat y" by (metis div_mult_mod_eq)
  then have "x = y" by (simp add: word_unat_eq_iff)
  with Cons.IH [OF r] b show ?case by simp
qed

subsection \<open>The wire form of a signed credential\<close>

lemma serializeParams_snoc:
  "ps \<noteq> [] \<Longrightarrow> serializeParams (ps @ [p]) = serializeParams ps @ [0x26] @ serialize_pair p"
  by (induction ps rule: serializeParams.induct) simp_all

lemma hex_digit_range:
  "n < 16 \<Longrightarrow> (0x30 \<le> unat (hex_digit n) \<and> unat (hex_digit n) \<le> 0x39)
      \<or> (0x61 \<le> unat (hex_digit n) \<and> unat (hex_digit n) \<le> 0x66)"
  using unat16 [of "0x30 + n"] unat16 [of "0x57 + n"] by (simp add: hex_digit_def)

lemma hex_range:
  assumes "u \<in> set (hex d)"
  shows "(0x30 \<le> unat u \<and> unat u \<le> 0x39) \<or> (0x61 \<le> unat u \<and> unat u \<le> 0x66)"
proof -
  from assms obtain b :: "8 word" where
    "u = hex_digit (unat b div 16) \<or> u = hex_digit (unat b mod 16)"
    by (auto simp: hex_def)
  moreover have "unat b div 16 < 16" "unat b mod 16 < 16"
    using unat_lt_256 [of b] by simp_all
  ultimately show ?thesis using hex_digit_range by blast
qed

lemma encodeStr_safe:
  assumes "\<forall>u \<in> set s. unat u < 0x80 \<and> form_safe (ucast u) \<and> u \<noteq> 0x20"
  shows "encodeStr s = s"
proof -
  have a: "\<forall>u \<in> set s. unat u < 0x80" using assms by blast
  have "concat (map encode_byte (map ucast s)) = s"
    using assms
  proof (induction s)
    case Nil
    show ?case by simp
  next
    case (Cons u s)
    then have u: "unat u < 0x80" "form_safe (ucast u)" "u \<noteq> 0x20" by simp_all
    have "unat (ucast (ucast u :: 8 word) :: 16 word) = unat u"
      using u(1) by (simp add: unat_ucast_8_16 unat_ucast_16_8)
    then have b: "ucast (ucast u :: 8 word) = u" by (simp add: word_unat_eq_iff)
    have "(ucast u :: 8 word) \<noteq> 0x20"
    proof
      assume "(ucast u :: 8 word) = 0x20"
      then have "ucast (ucast u :: 8 word) = (0x20 :: 16 word)" by simp
      with b u(3) show False by simp
    qed
    with Cons u b show ?case by (simp add: encode_byte_def)
  qed
  then show ?thesis by (simp add: encodeStr_def utf8_ascii [OF a])
qed

lemma encodeStr_hex: "encodeStr (hex d) = hex d"
proof (rule encodeStr_safe, rule ballI)
  fix u assume u: "u \<in> set (hex d)"
  from hex_range [OF u] have a: "unat u < 0x80" by auto
  then have "unat (ucast u :: 8 word) = unat u" by (rule unat_ucast_16_8)
  with hex_range [OF u] have "form_safe (ucast u)" by (auto simp: form_safe_def)
  moreover from hex_range [OF u] have "u \<noteq> 0x20" by auto
  ultimately show "unat u < 0x80 \<and> form_safe (ucast u) \<and> u \<noteq> 0x20" using a by blast
qed

lemma encodeStr_hash: "encodeStr (js ''hash'') = js ''hash''"
  by (rule encodeStr_safe) (simp add: js_def form_safe_def)

lemma toString_snoc_hash:
  "params_toString (ps @ [(js ''hash'', hex d)])
     = (if ps = [] then js ''hash='' @ hex d else params_toString ps @ js ''&hash='' @ hex d)"
proof -
  have "serialize_pair (js ''hash'', hex d) = js ''hash='' @ hex d"
    by (simp add: serialize_pair_def encodeStr_hex encodeStr_hash) (simp add: js_def)
  then show ?thesis
    by (simp add: params_toString_def serializeParams_snoc) (simp add: js_def)
qed

lemma signed_credential_wire:
  "signed_credential h secret ps
     = (if ps = [] then js ''hash='' else params_toString ps @ js ''&hash='')
       @ sign h (check_string ps) (derive_key h secret)"
  by (simp add: signed_credential_def sign_def toString_snoc_hash)

subsection \<open>Reading a check string back\<close>








lemma check_string_codeunit: "check_string ps = canonical_codeunit ps"
  by (simp add: check_string_join canonical_codeunit_def params_delete_def)


lemma ascii_keys_reissued:
  assumes "ascii_keys ps"
  shows "ascii_keys (augmented e ps @ [(js ''hash'', H)])"
proof -
  have "\<forall>u \<in> set (js ''hash''). unat u < 0x80" by (simp add: js_def)
  with assms ascii_client_id show ?thesis
    by (auto simp: ascii_keys_def list_all_iff augmented_def set_params_sort params_append_def
        params_delete_def to_usv_client_id)
qed

subsection \<open>Running the model on literals\<close>

lemmas parse_eval = URLSearchParams_def from_string_def parseParams_pieces parse_pieces_def
  parse_pair_def decode_component_def plus_to_space_def unescape_def is_hex_def hex_val_def
  hex_octet_def sequence_length_def code_point_def utf8_to_string_def to_usv_def utf16_encode_def
  utf16_enc_cp_def lone_def is_high_def is_low_def utf8_enc_cp_def cont_def lower3_def upper3_def
  lower4_def upper4_def js_def Let_def

lemmas sign_eval = sign_def derive_key_def concat_mac_def js_def utf8_def utf8_enc_cp_def lone_def
  is_high_def is_low_def hex_def hex_digit_def

lemmas check_eval = check_string_def params_delete_def params_sort_def dataCheckString_def js_def

lemmas serialize_eval = params_toString_def serialize_pair_def encodeStr_def encode_byte_def
  form_safe_def upper_hex_digit_def utf8_def utf8_enc_cp_def lone_def is_high_def is_low_def js_def

lemma example_env_simps:
  "BOT_TOKEN example_env = Some (js ''S1'')" "CLIENT_ID example_env = Some (js ''CID'')"
  "CLIENT_SECRET example_env = Some (js ''S2'')"
  by (simp_all add: example_env_def)

lemma well_formed_literals:
  "well_formed (js ''a'')" "well_formed (js ''1'')" "well_formed (js ''client_id'')"
  "well_formed (js ''CID'')" "well_formed (js ''EVIL'')" "well_formed (js ''hash'')"
  "well_formed (js ''junk'')" "well_formed (js ''undefined'')" "well_formed []"
  by (rule well_formed_low, simp add: js_def)+

lemma client_id_example: "to_usv (to_string (CLIENT_ID example_env)) = js ''CID''"
  using well_formed_literals(4) by (simp add: example_env_simps to_string_def well_formed_def)


lemma parse_signed:
  "URLSearchParams (Str (js ''a=1&hash=576562417070446174615331613d31''))
     = Inr [(js ''a'', js ''1''), (js ''hash'', js ''576562417070446174615331613d31'')]"
  by (simp add: parse_eval)

lemma parse_reissued_example:
  "URLSearchParams
     (Str (js ''a=1&client_id=CID&hash=576562417070446174615332613d310a636c69656e745f69643d434944''))
   = Inr [(js ''a'', js ''1''), (js ''client_id'', js ''CID''),
      (js ''hash'', js ''576562417070446174615332613d310a636c69656e745f69643d434944'')]"
  by (simp add: parse_eval)

lemma parse_a1: "URLSearchParams (Str (js ''a=1'')) = Inr [(js ''a'', js ''1'')]"
  by (simp add: parse_eval)

lemma parse_bad_escape: "URLSearchParams (Str (js ''a=%zz'')) = Inr [(js ''a'', js ''%zz'')]"
  by (simp add: parse_eval)

lemma parse_truncated:
  "URLSearchParams (Str (0x141 # js ''%41%zz=1'')) = Inr [(js ''AA%zz'', js ''1'')]"
  by (simp add: parse_eval)

lemma parse_not_utf8:
  "URLSearchParams (Str (0xE9 # js ''%FF=1'')) = Inr [([0xFFFD, 0xFFFD], js ''1'')]"
  by (simp add: parse_eval)

lemma parse_not_pairs: "URLSearchParams (Array [Array [Str (js ''a'')]]) = Inl TypeError"
  by (simp add: URLSearchParams_def from_pair_def)

lemma parse_pairs:
  "URLSearchParams (Array [Array [Str (js ''a''), Number (js ''1'')]]) = Inr [(js ''a'', js ''1'')]"
  using well_formed_literals(1,2)
  by (simp add: URLSearchParams_def from_pair_def well_formed_def)

text \<open>Check strings and signatures.\<close>

lemma check_string_a1: "check_string [(js ''a'', js ''1''), (js ''hash'', H)] = js ''a=1''"
  by (simp add: check_eval)

lemma check_string_a1_cid:
  "check_string [(js ''a'', js ''1''), (js ''client_id'', js ''CID''), (js ''hash'', H)]
     = js ''a=1'' @ 0x0A # js ''client_id=CID''"
  by (simp add: check_eval)

lemma sign_a1:
  "sign concat_mac (js ''a=1'') (derive_key concat_mac (js ''S1''))
     = js ''576562417070446174615331613d31''"
  by (simp add: sign_eval)

lemma sign_a1_cid:
  "sign concat_mac (js ''a=1'' @ 0x0A # js ''client_id=CID'') (derive_key concat_mac (js ''S2''))
     = js ''576562417070446174615332613d310a636c69656e745f69643d434944''"
  by (simp add: sign_eval)

lemma get_hash_a1: "params_get [(js ''a'', js ''1''), (js ''hash'', H)] (js ''hash'') = Some H"
  by (simp add: params_get_def js_def)

lemma verify_signed:
  "verify concat_mac (js ''S1'') (Str (js ''a=1&hash=576562417070446174615331613d31''))"
  by (simp add: verify_def verify_pairs_def parse_signed check_string_a1 sign_a1 get_hash_a1)

lemma not_verify_bad_escape: "\<not> verify h tok (Str (js ''a=%zz''))"
  unfolding verify_pairs [OF parse_bad_escape] by (simp add: verify_pairs_def params_get_def js_def)

lemma not_verify_a1: "\<not> verify h tok (Str (js ''a=1''))"
  unfolding verify_pairs [OF parse_a1] by (simp add: verify_pairs_def params_get_def js_def)

text \<open>Wire forms.\<close>

lemma toString_a1: "params_toString [(js ''a'', js ''1'')] = js ''a=1''"
  by (simp add: serialize_eval)

lemma toString_a1_cid: "params_toString [(js ''a'', js ''1''), (js ''client_id'', js ''CID'')]
     = js ''a=1&client_id=CID''"
  by (simp add: serialize_eval)

lemma toString_a1_undefined:
  "params_toString [(js ''a'', js ''1''), (js ''client_id'', js ''undefined'')]
     = js ''a=1&client_id=undefined''"
  by (simp add: serialize_eval)


lemma toString_rainbow:
  "params_toString [([0xFB03], js ''1''), ([0xD83C, 0xDF08], js ''2'')]
     = js ''%EF%AC%83=1&%F0%9F%8C%88=2''"
  by (simp add: serialize_eval)

lemma toString_rainbow_cid:
  "params_toString [(js ''client_id'', js ''CID''), ([0xD83C, 0xDF08], js ''2''), ([0xFB03], js ''1'')]
     = js ''client_id=CID&%F0%9F%8C%88=2&%EF%AC%83=1''"
  by (simp add: serialize_eval)

lemma wire_snoc_hash:
  "ps \<noteq> [] \<Longrightarrow> params_toString (ps @ [(js ''hash'', sign h X K)])
     = params_toString ps @ js ''&hash='' @ sign h X K"
  by (simp add: sign_def toString_snoc_hash)

text \<open>The handler on a credential whose pairs other than \<open>hash\<close> are \<open>a=1\<close>.\<close>

lemma run_a1:
  assumes "URLSearchParams v = Inr ps"
    and "params_delete ps (js ''hash'') = [(js ''a'', js ''1'')]"
    and "params_get ps (js ''hash'') = Some (sign h (js ''a=1'') (derive_key h tok))"
    and "BOT_TOKEN e = Some tok" and "CLIENT_SECRET e = Some cs"
    and "to_usv (to_string (CLIENT_ID e)) = c"
  shows "verifyInitData h e (Some v)
    = Success (params_toString [(js ''a'', js ''1''), (js ''client_id'', c)] @ js ''&hash=''
        @ sign h (js ''a=1'' @ 0x0A # js ''client_id='' @ c) (derive_key h cs))"
proof -
  have c: "check_string ps = js ''a=1''"
    unfolding check_string_def assms(2) by (simp add: params_sort_def dataCheckString_def js_def)
  have a: "augmented e ps = [(js ''a'', js ''1''), (js ''client_id'', c)]"
    unfolding augmented_def assms(2)
    by (simp add: assms(6) params_sort_def params_append_def to_usv_client_id) (simp add: js_def)
  have d: "dataCheckString [(js ''a'', js ''1''), (js ''client_id'', c)]
      = js ''a=1'' @ 0x0A # js ''client_id='' @ c"
    by (simp add: dataCheckString_def js_def)
  show ?thesis
    using wire_snoc_hash [of "[(js ''a'', js ''1''), (js ''client_id'', c)]"]
    by (simp add: verifyInitData_pairs [OF assms(1)] verify_pairs_def assms(3,4,5) c a d)
qed

lemma run_signed:
  "verifyInitData concat_mac example_env
     (Some (Str (js ''a=1&hash=576562417070446174615331613d31'')))
   = Success (js ''a=1&client_id=CID&hash=576562417070446174615332613d310a636c69656e745f69643d434944'')"
proof -
  have "verifyInitData concat_mac example_env
     (Some (Str (js ''a=1&hash=576562417070446174615331613d31'')))
    = Success (params_toString [(js ''a'', js ''1''), (js ''client_id'', js ''CID'')] @ js ''&hash=''
        @ sign concat_mac (js ''a=1'' @ 0x0A # js ''client_id='' @ js ''CID'')
            (derive_key concat_mac (js ''S2'')))"
  proof (rule run_a1 [OF parse_signed])
    show "params_delete [(js ''a'', js ''1''), (js ''hash'', js ''576562417070446174615331613d31'')]
        (js ''hash'') = [(js ''a'', js ''1'')]"
      by (simp add: params_delete_def js_def)
    show "to_usv (to_string (CLIENT_ID example_env)) = js ''CID''" by (rule client_id_example)
  qed (simp_all add: example_env_simps sign_a1 get_hash_a1)
  moreover have "js ''a=1'' @ 0x0A # js ''client_id='' @ js ''CID''
      = js ''a=1'' @ 0x0A # js ''client_id=CID''"
    by (simp add: js_def)
  ultimately show ?thesis
    by (simp add: toString_a1_cid sign_a1_cid) (simp add: js_def)
qed

text \<open>The handler on a credential with the keys U+FB03 and U+1F308.\<close>

lemma well_formed_rainbow:
  "all_well_formed [([0xFB03], js ''1''), ([0xD83C, 0xDF08], js ''2'')]"
  by (simp add: all_well_formed_def well_formed_def to_usv_def utf16_encode_def utf16_enc_cp_def
      lone_def is_high_def is_low_def js_def)

lemma sort_rainbow:
  "params_sort ([([0xFB03], js ''1''), ([0xD83C, 0xDF08], js ''2'')]
      @ [(js ''client_id'', to_usv (to_string (CLIENT_ID example_env)))])
     = [(js ''client_id'', js ''CID''), ([0xD83C, 0xDF08], js ''2''), ([0xFB03], js ''1'')]"
  by (simp add: client_id_example) (simp add: params_sort_def js_def)

lemma not_bytewise_rainbow:
  "\<not> bytewise_sorted
       [(js ''client_id'', js ''CID''), ([0xD83C, 0xDF08], js ''2''), ([0xFB03], js ''1'')]"
  by (simp add: bytewise_sorted_def utf8_def utf8_enc_cp_def lone_def is_high_def is_low_def js_def)

lemma check_string_rainbow:
  "check_string [([0xFB03], js ''1''), ([0xD83C, 0xDF08], js ''2'')]
     = [0xD83C, 0xDF08] @ js ''=2'' @ [0x0A] @ [0xFB03] @ js ''=1''"
  by (simp add: check_eval)

lemma dataCheckString_rainbow_cid:
  "dataCheckString [(js ''client_id'', js ''CID''), ([0xD83C, 0xDF08], js ''2''), ([0xFB03], js ''1'')]
     = js ''client_id=CID'' @ [0x0A] @ [0xD83C, 0xDF08] @ js ''=2'' @ [0x0A] @ [0xFB03] @ js ''=1''"
  by (simp add: dataCheckString_def js_def)

lemma canonical_bytewise_rainbow_cid:
  "canonical_bytewise ([(js ''client_id'', js ''CID''), ([0xD83C, 0xDF08], js ''2''),
       ([0xFB03], js ''1'')] @ [(js ''hash'', H)])
     = js ''client_id=CID'' @ [0x0A] @ [0xFB03] @ js ''=1'' @ [0x0A] @ [0xD83C, 0xDF08] @ js ''=2''"
  by (simp add: canonical_bytewise_def line_def utf8_def utf8_enc_cp_def lone_def is_high_def
      is_low_def js_def)

lemma run_rainbow:
  "verifyInitData h example_env
      (Some (Str (js ''%EF%AC%83=1&%F0%9F%8C%88=2&hash=''
         @ sign h ([0xD83C, 0xDF08] @ js ''=2'' @ [0x0A] @ [0xFB03] @ js ''=1'')
             (derive_key h (js ''S1'')))))
    = Success (js ''client_id=CID&%F0%9F%8C%88=2&%EF%AC%83=1&hash=''
        @ sign h (js ''client_id=CID'' @ [0x0A] @ [0xD83C, 0xDF08] @ js ''=2'' @ [0x0A]
                   @ [0xFB03] @ js ''=1'')
            (derive_key h (js ''S2'')))
   \<and> URLSearchParams (Str (js ''client_id=CID&%F0%9F%8C%88=2&%EF%AC%83=1&hash=''
        @ sign h (js ''client_id=CID'' @ [0x0A] @ [0xD83C, 0xDF08] @ js ''=2'' @ [0x0A]
                   @ [0xFB03] @ js ''=1'')
            (derive_key h (js ''S2''))))
      = Inr ([(js ''client_id'', js ''CID''), ([0xD83C, 0xDF08], js ''2''), ([0xFB03], js ''1'')]
        @ [(js ''hash'',
            sign h (js ''client_id=CID'' @ [0x0A] @ [0xD83C, 0xDF08] @ js ''=2'' @ [0x0A]
                     @ [0xFB03] @ js ''=1'')
              (derive_key h (js ''S2'')))])"
proof (intro conjI)
  let ?in = "[([0xFB03], js ''1''), ([0xD83C, 0xDF08], js ''2'')] :: params"
  let ?P = "[(js ''client_id'', js ''CID''), ([0xD83C, 0xDF08], js ''2''), ([0xFB03], js ''1'')]"
  let ?m = "js ''client_id=CID'' @ [0x0A] @ [0xD83C, 0xDF08] @ js ''=2'' @ [0x0A]
      @ [0xFB03] @ js ''=1''"
  let ?H = "sign h ?m (derive_key h (js ''S2''))"
  have n: "\<forall>p \<in> set ?in. fst p \<noteq> js ''hash''" by (simp add: js_def)
  have i: "signed_credential h (js ''S1'') ?in
      = js ''%EF%AC%83=1&%F0%9F%8C%88=2&hash=''
        @ sign h ([0xD83C, 0xDF08] @ js ''=2'' @ [0x0A] @ [0xFB03] @ js ''=1'')
            (derive_key h (js ''S1''))"
    unfolding signed_credential_wire toString_rainbow check_string_rainbow by (simp add: js_def)
  have t: "params_toString (?P @ [(js ''hash'', sign h X K)])
      = js ''client_id=CID&%F0%9F%8C%88=2&%EF%AC%83=1&hash='' @ sign h X K" for X K
    unfolding sign_def toString_snoc_hash toString_rainbow_cid by (simp add: js_def)
  have "verifyInitData h example_env (Some (Str (signed_credential h (js ''S1'') ?in)))
      = Success (params_toString
          (params_sort (?in @ [(js ''client_id'', to_usv (to_string (CLIENT_ID example_env)))])
           @ [(js ''hash'',
               sign h (dataCheckString
                   (params_sort (?in @ [(js ''client_id'', to_usv (to_string (CLIENT_ID example_env)))])))
                 (derive_key h (js ''S2'')))]))"
    by (rule verifyInitData_signed_credential [OF well_formed_rainbow n])
      (simp_all add: example_env_simps)
  then show "verifyInitData h example_env
          (Some (Str (js ''%EF%AC%83=1&%F0%9F%8C%88=2&hash=''
             @ sign h ([0xD83C, 0xDF08] @ js ''=2'' @ [0x0A] @ [0xFB03] @ js ''=1'')
                 (derive_key h (js ''S1'')))))
        = Success (js ''client_id=CID&%F0%9F%8C%88=2&%EF%AC%83=1&hash='' @ ?H)"
    unfolding i sort_rainbow dataCheckString_rainbow_cid t by (simp only:)
  have "all_well_formed (?P @ [(js ''hash'', ?H)])"
    by (simp add: all_well_formed_def well_formed_hex sign_def)
      (simp add: well_formed_def to_usv_def utf16_encode_def utf16_enc_cp_def
        lone_def is_high_def is_low_def js_def)
  then have "URLSearchParams (Str (params_toString (?P @ [(js ''hash'', ?H)])))
      = Inr (?P @ [(js ''hash'', ?H)])"
    by (rule URLSearchParams_toString)
  then show "URLSearchParams (Str (js ''client_id=CID&%F0%9F%8C%88=2&%EF%AC%83=1&hash='' @ ?H))
      = Inr (?P @ [(js ''hash'', ?H)])"
    unfolding t by (simp only:)
qed

text \<open>The same pairs signed over their byte-wise canonical check string.\<close>

lemma parse_rainbow_hash:
  "URLSearchParams (Str (js ''%EF%AC%83=1&%F0%9F%8C%88=2&hash='' @ sign h X K))
     = Inr ([([0xFB03], js ''1''), ([0xD83C, 0xDF08], js ''2'')] @ [(js ''hash'', sign h X K)])"
proof -
  let ?in = "[([0xFB03], js ''1''), ([0xD83C, 0xDF08], js ''2'')] :: params"
  have "all_well_formed (?in @ [(js ''hash'', sign h X K)])"
    using well_formed_rainbow well_formed_literals
    by (simp add: all_well_formed_def sign_def well_formed_hex)
  then have "URLSearchParams (Str (params_toString (?in @ [(js ''hash'', sign h X K)])))
      = Inr (?in @ [(js ''hash'', sign h X K)])"
    by (rule URLSearchParams_toString)
  moreover have "params_toString (?in @ [(js ''hash'', sign h X K)])
      = js ''%EF%AC%83=1&%F0%9F%8C%88=2&hash='' @ sign h X K"
    unfolding sign_def toString_snoc_hash toString_rainbow by (simp add: js_def)
  ultimately show ?thesis by (simp only:)
qed

lemma canonical_bytewise_rainbow:
  "canonical_bytewise ([([0xFB03], js ''1''), ([0xD83C, 0xDF08], js ''2'')] @ [(js ''hash'', H)])
     = [0xFB03] @ js ''=1'' @ [0x0A] @ [0xD83C, 0xDF08] @ js ''=2''"
  by (simp add: canonical_bytewise_def line_def utf8_def utf8_enc_cp_def lone_def is_high_def
      is_low_def js_def)

lemma check_string_rainbow_hash:
  "check_string ([([0xFB03], js ''1''), ([0xD83C, 0xDF08], js ''2'')] @ [(js ''hash'', H)])
     = [0xD83C, 0xDF08] @ js ''=2'' @ [0x0A] @ [0xFB03] @ js ''=1''"
  by (simp add: check_eval)

lemma run_rainbow_bytewise:
  "(verifyInitData h example_env
      (Some (Str (js ''%EF%AC%83=1&%F0%9F%8C%88=2&hash=''
         @ sign h ([0xFB03] @ js ''=1'' @ [0x0A] @ [0xD83C, 0xDF08] @ js ''=2'')
             (derive_key h (js ''S1''))))) = InvalidInitData)
   = (h (derive_key h (js ''S1''))
          (utf8 ([0xFB03] @ js ''=1'' @ [0x0A] @ [0xD83C, 0xDF08] @ js ''=2''))
      \<noteq> h (derive_key h (js ''S1''))
          (utf8 ([0xD83C, 0xDF08] @ js ''=2'' @ [0x0A] @ [0xFB03] @ js ''=1'')))"
proof -
  let ?in = "[([0xFB03], js ''1''), ([0xD83C, 0xDF08], js ''2'')] :: params"
  let ?H = "sign h ([0xFB03] @ js ''=1'' @ [0x0A] @ [0xD83C, 0xDF08] @ js ''=2'')
             (derive_key h (js ''S1''))"
  have g: "params_get (?in @ [(js ''hash'', ?H)]) (js ''hash'') = Some ?H"
    by (simp add: params_get_def js_def)
  show ?thesis
    unfolding verifyInitData_pairs [OF parse_rainbow_hash] verify_pairs_def g
      check_string_rainbow_hash
    using hex_inj by (auto simp: example_env_simps sign_def)
qed

text \<open>Credentials with a symbolic signature, on the wire and parsed.\<close>

lemma parse_a1_hash:
  "URLSearchParams (Str (js ''a=1&hash='' @ sign h X K))
     = Inr [(js ''a'', js ''1''), (js ''hash'', sign h X K)]"
proof -
  have "all_well_formed ([(js ''a'', js ''1'')] @ [(js ''hash'', sign h X K)])"
    using well_formed_literals by (simp add: all_well_formed_def sign_def well_formed_hex)
  moreover have "params_toString ([(js ''a'', js ''1'')] @ [(js ''hash'', sign h X K)])
      = js ''a=1&hash='' @ sign h X K"
    using wire_snoc_hash [of "[(js ''a'', js ''1'')]" h X K] by (simp add: toString_a1) (simp add: js_def)
  ultimately show ?thesis
    using URLSearchParams_toString [of "[(js ''a'', js ''1'')] @ [(js ''hash'', sign h X K)]"]
    by simp
qed

lemma parse_a1_cid_hash:
  "URLSearchParams (Str (js ''a=1&client_id=CID&hash='' @ sign h X K))
     = Inr [(js ''a'', js ''1''), (js ''client_id'', js ''CID''), (js ''hash'', sign h X K)]"
proof -
  have "all_well_formed ([(js ''a'', js ''1''), (js ''client_id'', js ''CID'')]
      @ [(js ''hash'', sign h X K)])"
    using well_formed_literals by (simp add: all_well_formed_def sign_def well_formed_hex)
  moreover have "params_toString ([(js ''a'', js ''1''), (js ''client_id'', js ''CID'')] @ [(js ''hash'', sign h X K)])
      = js ''a=1&client_id=CID&hash='' @ sign h X K"
    using wire_snoc_hash [of "[(js ''a'', js ''1''), (js ''client_id'', js ''CID'')]" h X K] by (simp add: toString_a1_cid) (simp add: js_def)
  ultimately show ?thesis
    using URLSearchParams_toString [of "[(js ''a'', js ''1''), (js ''client_id'', js ''CID'')] @ [(js ''hash'', sign h X K)]"]
    by simp
qed


lemma parse_two_hashes:
  "URLSearchParams (Str (js ''hash='' @ sign h X K @ js ''&a=1&hash=junk''))
     = Inr [(js ''hash'', sign h X K), (js ''a'', js ''1''), (js ''hash'', js ''junk'')]"
proof -
  have "all_well_formed [(js ''hash'', sign h X K), (js ''a'', js ''1''), (js ''hash'', js ''junk'')]"
    using well_formed_literals by (simp add: all_well_formed_def sign_def well_formed_hex)
  moreover have "serialize_pair (js ''hash'', sign h X K) = js ''hash='' @ sign h X K"
    by (simp add: serialize_pair_def sign_def encodeStr_hex encodeStr_hash) (simp add: js_def)
  moreover have "serialize_pair (js ''a'', js ''1'') = js ''a=1''"
    "serialize_pair (js ''hash'', js ''junk'') = js ''hash=junk''"
    by (simp_all add: serialize_eval)
  ultimately show ?thesis
    using URLSearchParams_toString
      [of "[(js ''hash'', sign h X K), (js ''a'', js ''1''), (js ''hash'', js ''junk'')]"]
    by (simp add: params_toString_def) (simp add: js_def)
qed

section \<open>The claims\<close>



text \<open>
  C2, as the code has it. With both secrets configured, a credential whose \<open>hash\<close>
  value is the signature, under the key derived from the bot token, of its canonical
  check string with the keys in the order of their UTF-16 code units is reissued, and
  the returned string round-trips: parsed, its \<open>hash\<close> value is the signature,
  under the key derived from the client secret, of the canonical check string, in that
  order, of its other pairs. Where every key of the input is ASCII, this also holds
  for the specification's byte-wise canonical check string.
\<close>

theorem valid_credential_reissued:
  assumes "BOT_TOKEN e = Some tok" and "CLIENT_SECRET e = Some cs"
    and "URLSearchParams v = Inr ps"
    and "params_get ps (js ''hash'') = Some (sign h (canonical_codeunit ps) (derive_key h tok))"
  shows "\<exists>out qs. verifyInitData h e (Some v) = Success out
    \<and> URLSearchParams (Str out) = Inr qs
    \<and> params_get qs (js ''hash'') = Some (sign h (canonical_codeunit qs) (derive_key h cs))
    \<and> (ascii_keys ps \<longrightarrow>
         params_get qs (js ''hash'') = Some (sign h (canonical_bytewise qs) (derive_key h cs)))"
proof -
  let ?A = "augmented e ps"
  let ?H = "sign h (dataCheckString ?A) (derive_key h cs)"
  let ?qs = "?A @ [(js ''hash'', ?H)]"
  from assms(4) have v: "verify_pairs h tok ps"
    by (simp add: verify_pairs_def check_string_codeunit)
  have r: "verifyInitData h e (Some v) = Success (params_toString ?qs)"
    using assms(1,2) v by (simp add: verifyInitData_pairs [OF assms(3)])
  have p: "URLSearchParams (Str (params_toString ?qs)) = Inr ?qs"
    unfolding sign_def by (rule parse_reissued [OF all_well_formed_parse [OF assms(3)]])
  have g: "params_get ?qs (js ''hash'') = Some ?H"
    by (simp add: params_get_snoc augmented_no_hash)
  have c: "canonical_codeunit ?qs = dataCheckString ?A"
    using check_string_reissued [of e ps ?H] by (simp add: check_string_codeunit)
  have b: "canonical_bytewise ?qs = dataCheckString ?A" if "ascii_keys ps"
    using check_string_bytewise_ascii [OF ascii_keys_reissued [OF that, of e ?H]]
      check_string_reissued [of e ps ?H]
    by simp
  show ?thesis
    using r p g c b by (intro exI [of _ "params_toString ?qs"] exI [of _ ?qs]) simp
qed

text \<open>
  The specification's canonical check string is byte-wise. For a credential with the
  keys U+FB03 and U+1F308 that the handler accepts and reissues, the returned \<open>hash\<close>
  value is the signature of the check string in code-unit order; the byte-wise
  canonical check string of the returned pairs is another message, so the returned
  credential validates byte-wise only if the HMAC gives both messages one digest.
  The same pairs signed over their byte-wise canonical check string are not reissued
  at all: the handler answers them with the 401 response, unless the HMAC gives both
  messages one digest.
\<close>

theorem valid_credential_reissued_counterexample:
  "(\<forall>h. verifyInitData h example_env
          (Some (Str (js ''%EF%AC%83=1&%F0%9F%8C%88=2&hash=''
             @ sign h ([0xD83C, 0xDF08] @ js ''=2'' @ [0x0A] @ [0xFB03] @ js ''=1'')
                 (derive_key h (js ''S1'')))))
        = Success (js ''client_id=CID&%F0%9F%8C%88=2&%EF%AC%83=1&hash=''
            @ sign h (js ''client_id=CID'' @ [0x0A] @ [0xD83C, 0xDF08] @ js ''=2'' @ [0x0A]
                       @ [0xFB03] @ js ''=1'')
                (derive_key h (js ''S2'')))
      \<and> URLSearchParams (Str (js ''client_id=CID&%F0%9F%8C%88=2&%EF%AC%83=1&hash=''
            @ sign h (js ''client_id=CID'' @ [0x0A] @ [0xD83C, 0xDF08] @ js ''=2'' @ [0x0A]
                       @ [0xFB03] @ js ''=1'')
                (derive_key h (js ''S2''))))
          = Inr ([(js ''client_id'', js ''CID''), ([0xD83C, 0xDF08], js ''2''), ([0xFB03], js ''1'')]
            @ [(js ''hash'',
                sign h (js ''client_id=CID'' @ [0x0A] @ [0xD83C, 0xDF08] @ js ''=2'' @ [0x0A]
                         @ [0xFB03] @ js ''=1'')
                  (derive_key h (js ''S2'')))])
      \<and> canonical_bytewise
            ([(js ''client_id'', js ''CID''), ([0xD83C, 0xDF08], js ''2''), ([0xFB03], js ''1'')]
             @ [(js ''hash'',
                 sign h (js ''client_id=CID'' @ [0x0A] @ [0xD83C, 0xDF08] @ js ''=2'' @ [0x0A]
                          @ [0xFB03] @ js ''=1'')
                   (derive_key h (js ''S2'')))])
          = js ''client_id=CID'' @ [0x0A] @ [0xFB03] @ js ''=1'' @ [0x0A] @ [0xD83C, 0xDF08] @ js ''=2''
      \<and> (sign h (js ''client_id=CID'' @ [0x0A] @ [0xD83C, 0xDF08] @ js ''=2'' @ [0x0A]
                   @ [0xFB03] @ js ''=1'')
             (derive_key h (js ''S2''))
           = sign h (js ''client_id=CID'' @ [0x0A] @ [0xFB03] @ js ''=1'' @ [0x0A]
                      @ [0xD83C, 0xDF08] @ js ''=2'')
               (derive_key h (js ''S2'')))
          = (h (derive_key h (js ''S2''))
                (utf8 (js ''client_id=CID'' @ [0x0A] @ [0xD83C, 0xDF08] @ js ''=2'' @ [0x0A]
                   @ [0xFB03] @ js ''=1''))
             = h (derive_key h (js ''S2''))
                (utf8 (js ''client_id=CID'' @ [0x0A] @ [0xFB03] @ js ''=1'' @ [0x0A]
                      @ [0xD83C, 0xDF08] @ js ''=2''))))
   \<and> utf8 (js ''client_id=CID'' @ [0x0A] @ [0xD83C, 0xDF08] @ js ''=2'' @ [0x0A]
             @ [0xFB03] @ js ''=1'')
       \<noteq> utf8 (js ''client_id=CID'' @ [0x0A] @ [0xFB03] @ js ''=1'' @ [0x0A]
             @ [0xD83C, 0xDF08] @ js ''=2'')
   \<and> sign concat_mac (js ''client_id=CID'' @ [0x0A] @ [0xD83C, 0xDF08] @ js ''=2'' @ [0x0A]
             @ [0xFB03] @ js ''=1'')
         (derive_key concat_mac (js ''S2''))
       \<noteq> sign concat_mac (js ''client_id=CID'' @ [0x0A] @ [0xFB03] @ js ''=1'' @ [0x0A]
                @ [0xD83C, 0xDF08] @ js ''=2'')
           (derive_key concat_mac (js ''S2''))
   \<and> (\<forall>h. URLSearchParams (Str (js ''%EF%AC%83=1&%F0%9F%8C%88=2&hash=''
            @ sign h ([0xFB03] @ js ''=1'' @ [0x0A] @ [0xD83C, 0xDF08] @ js ''=2'')
                (derive_key h (js ''S1''))))
          = Inr ([([0xFB03], js ''1''), ([0xD83C, 0xDF08], js ''2'')]
            @ [(js ''hash'',
                sign h ([0xFB03] @ js ''=1'' @ [0x0A] @ [0xD83C, 0xDF08] @ js ''=2'')
                  (derive_key h (js ''S1'')))])
      \<and> canonical_bytewise
            ([([0xFB03], js ''1''), ([0xD83C, 0xDF08], js ''2'')]
             @ [(js ''hash'',
                 sign h ([0xFB03] @ js ''=1'' @ [0x0A] @ [0xD83C, 0xDF08] @ js ''=2'')
                   (derive_key h (js ''S1'')))])
          = [0xFB03] @ js ''=1'' @ [0x0A] @ [0xD83C, 0xDF08] @ js ''=2''
      \<and> (verifyInitData h example_env
            (Some (Str (js ''%EF%AC%83=1&%F0%9F%8C%88=2&hash=''
               @ sign h ([0xFB03] @ js ''=1'' @ [0x0A] @ [0xD83C, 0xDF08] @ js ''=2'')
                   (derive_key h (js ''S1''))))) = InvalidInitData)
          = (h (derive_key h (js ''S1''))
                (utf8 ([0xFB03] @ js ''=1'' @ [0x0A] @ [0xD83C, 0xDF08] @ js ''=2''))
             \<noteq> h (derive_key h (js ''S1''))
                (utf8 ([0xD83C, 0xDF08] @ js ''=2'' @ [0x0A] @ [0xFB03] @ js ''=1''))))
   \<and> verifyInitData concat_mac example_env
         (Some (Str (js ''%EF%AC%83=1&%F0%9F%8C%88=2&hash=''
            @ sign concat_mac ([0xFB03] @ js ''=1'' @ [0x0A] @ [0xD83C, 0xDF08] @ js ''=2'')
                (derive_key concat_mac (js ''S1'')))))
       = InvalidInitData"
proof (intro conjI allI)
  have "utf8 ([0xFB03] @ js ''=1'' @ [0x0A] @ [0xD83C, 0xDF08] @ js ''=2'')
      \<noteq> utf8 ([0xD83C, 0xDF08] @ js ''=2'' @ [0x0A] @ [0xFB03] @ js ''=1'')"
    by (simp add: utf8_def utf8_enc_cp_def lone_def is_high_def is_low_def js_def)
  then have "concat_mac (derive_key concat_mac (js ''S1''))
        (utf8 ([0xFB03] @ js ''=1'' @ [0x0A] @ [0xD83C, 0xDF08] @ js ''=2''))
      \<noteq> concat_mac (derive_key concat_mac (js ''S1''))
        (utf8 ([0xD83C, 0xDF08] @ js ''=2'' @ [0x0A] @ [0xFB03] @ js ''=1''))"
    unfolding concat_mac_def by blast
  then show "verifyInitData concat_mac example_env
         (Some (Str (js ''%EF%AC%83=1&%F0%9F%8C%88=2&hash=''
            @ sign concat_mac ([0xFB03] @ js ''=1'' @ [0x0A] @ [0xD83C, 0xDF08] @ js ''=2'')
                (derive_key concat_mac (js ''S1'')))))
       = InvalidInitData"
    unfolding run_rainbow_bytewise [of concat_mac] .
next
  fix h :: hmac
  show "(sign h (js ''client_id=CID'' @ [0x0A] @ [0xD83C, 0xDF08] @ js ''=2'' @ [0x0A]
                   @ [0xFB03] @ js ''=1'')
             (derive_key h (js ''S2''))
           = sign h (js ''client_id=CID'' @ [0x0A] @ [0xFB03] @ js ''=1'' @ [0x0A]
                      @ [0xD83C, 0xDF08] @ js ''=2'')
               (derive_key h (js ''S2'')))
          = (h (derive_key h (js ''S2''))
                (utf8 (js ''client_id=CID'' @ [0x0A] @ [0xD83C, 0xDF08] @ js ''=2'' @ [0x0A]
                   @ [0xFB03] @ js ''=1''))
             = h (derive_key h (js ''S2''))
                (utf8 (js ''client_id=CID'' @ [0x0A] @ [0xFB03] @ js ''=1'' @ [0x0A]
                      @ [0xD83C, 0xDF08] @ js ''=2'')))"
    unfolding sign_def by (auto dest: hex_inj)
  show u: "utf8 (js ''client_id=CID'' @ [0x0A] @ [0xD83C, 0xDF08] @ js ''=2'' @ [0x0A]
             @ [0xFB03] @ js ''=1'')
       \<noteq> utf8 (js ''client_id=CID'' @ [0x0A] @ [0xFB03] @ js ''=1'' @ [0x0A]
             @ [0xD83C, 0xDF08] @ js ''=2'')"
    by (simp add: utf8_def utf8_enc_cp_def lone_def is_high_def is_low_def js_def)
  show "sign concat_mac (js ''client_id=CID'' @ [0x0A] @ [0xD83C, 0xDF08] @ js ''=2'' @ [0x0A]
             @ [0xFB03] @ js ''=1'')
         (derive_key concat_mac (js ''S2''))
       \<noteq> sign concat_mac (js ''client_id=CID'' @ [0x0A] @ [0xFB03] @ js ''=1'' @ [0x0A]
                @ [0xD83C, 0xDF08] @ js ''=2'')
           (derive_key concat_mac (js ''S2''))"
    unfolding sign_def using u hex_inj by (auto simp: concat_mac_def)
qed (simp_all only: run_rainbow canonical_bytewise_rainbow_cid parse_rainbow_hash
    canonical_bytewise_rainbow run_rainbow_bytewise)

theorem valid_credential_reissued_witness:
  "verifyInitData concat_mac example_env
     (Some (Str (js ''a=1&hash=576562417070446174615331613d31'')))
   = Success (js ''a=1&client_id=CID&hash=576562417070446174615332613d310a636c69656e745f69643d434944'')
   \<and> params_get [(js ''a'', js ''1''), (js ''client_id'', js ''CID''),
        (js ''hash'', js ''576562417070446174615332613d310a636c69656e745f69643d434944'')]
        (js ''hash'')
     = Some (sign concat_mac
         (canonical_codeunit [(js ''a'', js ''1''), (js ''client_id'', js ''CID''),
            (js ''hash'', js ''576562417070446174615332613d310a636c69656e745f69643d434944'')])
         (derive_key concat_mac (js ''S2'')))
   \<and> params_get [(js ''a'', js ''1''), (js ''client_id'', js ''CID''),
        (js ''hash'', js ''576562417070446174615332613d310a636c69656e745f69643d434944'')]
        (js ''hash'')
     = Some (sign concat_mac
         (canonical_bytewise [(js ''a'', js ''1''), (js ''client_id'', js ''CID''),
            (js ''hash'', js ''576562417070446174615332613d310a636c69656e745f69643d434944'')])
         (derive_key concat_mac (js ''S2'')))"
proof -
  let ?ps = "[(js ''a'', js ''1''), (js ''hash'', js ''576562417070446174615331613d31'')]"
  let ?out = "js ''a=1&client_id=CID&hash=576562417070446174615332613d310a636c69656e745f69643d434944''"
  have g: "params_get ?ps (js ''hash'')
      = Some (sign concat_mac (canonical_codeunit ?ps) (derive_key concat_mac (js ''S1'')))"
    by (simp add: check_string_codeunit [symmetric] get_hash_a1 check_string_a1 sign_a1)
  have a: "ascii_keys ?ps" by (simp add: ascii_keys_def js_def)
  from valid_credential_reissued [OF example_env_simps(1,3) parse_signed g] a
  obtain out qs where
    r: "verifyInitData concat_mac example_env
          (Some (Str (js ''a=1&hash=576562417070446174615331613d31''))) = Success out"
    and p: "URLSearchParams (Str out) = Inr qs"
    and c: "params_get qs (js ''hash'')
        = Some (sign concat_mac (canonical_codeunit qs) (derive_key concat_mac (js ''S2'')))"
      "params_get qs (js ''hash'')
        = Some (sign concat_mac (canonical_bytewise qs) (derive_key concat_mac (js ''S2'')))"
    by blast
  from r have o: "out = ?out" by (simp add: run_signed)
  with p have "qs = [(js ''a'', js ''1''), (js ''client_id'', js ''CID''),
        (js ''hash'', js ''576562417070446174615332613d310a636c69656e745f69643d434944'')]"
    by (simp add: parse_reissued_example)
  with c run_signed show ?thesis by (simp only:)
qed

text \<open>
  C3. The signature the handler compares the \<open>hash\<close> value with is the hexadecimal
  digest of the HMAC, keyed with the raw digest of the HMAC keyed with \<open>WebAppData\<close>
  over the bot token, over the check string; the \<open>hash\<close> value of a returned
  credential is computed the same way from the client secret. \<open>derive_key\<close> and
  \<open>sign\<close> are this derivation, and a signature consists of lowercase hexadecimal
  digits, two for each byte of the digest.
\<close>

theorem two_step_derivation:
  "(BOT_TOKEN e = Some tok \<and> URLSearchParams v = Inr ps \<longrightarrow>
      (verifyInitData h e (Some v) = InvalidInitData)
        = (params_get ps (js ''hash'')
             \<noteq> Some (hex (h (h (utf8 (js ''WebAppData'')) (utf8 tok))
                             (utf8 (check_string ps))))))
   \<and> (verifyInitData h e (Some v) = Success out \<longrightarrow>
        (\<exists>cs qs. CLIENT_SECRET e = Some cs \<and> URLSearchParams (Str out) = Inr qs
           \<and> params_get qs (js ''hash'')
               = Some (hex (h (h (utf8 (js ''WebAppData'')) (utf8 cs))
                             (utf8 (check_string qs))))))
   \<and> derive_key h secret = h (utf8 (js ''WebAppData'')) (utf8 secret)
   \<and> sign h c (derive_key h secret) = hex (h (derive_key h secret) (utf8 c))
   \<and> set (sign h c k) \<subseteq> set (js ''0123456789abcdef'')
   \<and> length (sign h c k) = 2 * length (h k (utf8 c))"
proof (intro conjI impI)
  assume a: "BOT_TOKEN e = Some tok \<and> URLSearchParams v = Inr ps"
  then have p: "URLSearchParams v = Inr ps" by blast
  from a show "(verifyInitData h e (Some v) = InvalidInitData)
        = (params_get ps (js ''hash'')
             \<noteq> Some (hex (h (h (utf8 (js ''WebAppData'')) (utf8 tok))
                             (utf8 (check_string ps)))))"
    by (simp add: verifyInitData_pairs [OF p] verify_pairs_def sign_def derive_key_def
        split: option.splits)
next
  assume "verifyInitData h e (Some v) = Success out"
  from success_parse [OF this] obtain ps cs where
    cs: "CLIENT_SECRET e = Some cs"
    and p: "URLSearchParams (Str out) = Inr (augmented e ps
         @ [(js ''hash'', sign h (dataCheckString (augmented e ps)) (derive_key h cs))])"
    by blast
  show "\<exists>cs qs. CLIENT_SECRET e = Some cs \<and> URLSearchParams (Str out) = Inr qs
           \<and> params_get qs (js ''hash'')
               = Some (hex (h (h (utf8 (js ''WebAppData'')) (utf8 cs))
                             (utf8 (check_string qs))))"
    using cs p
    by (intro exI [of _ cs] exI [of _ "augmented e ps
         @ [(js ''hash'', sign h (dataCheckString (augmented e ps)) (derive_key h cs))]"])
      (simp add: params_get_snoc augmented_no_hash check_string_reissued sign_def derive_key_def)
qed (simp_all add: derive_key_def sign_def hex_lowercase length_hex)

theorem two_step_derivation_witness:
  "verifyInitData concat_mac example_env
     (Some (Str (js ''a=1&hash=576562417070446174615331613d31'')))
   = Success (js ''a=1&client_id=CID&hash=576562417070446174615332613d310a636c69656e745f69643d434944'')
   \<and> params_get [(js ''a'', js ''1''), (js ''hash'', js ''576562417070446174615331613d31'')]
       (js ''hash'')
     = Some (hex (concat_mac (concat_mac (utf8 (js ''WebAppData'')) (utf8 (js ''S1'')))
          (utf8 (check_string
             [(js ''a'', js ''1''), (js ''hash'', js ''576562417070446174615331613d31'')]))))
   \<and> params_get [(js ''a'', js ''1''), (js ''client_id'', js ''CID''),
        (js ''hash'', js ''576562417070446174615332613d310a636c69656e745f69643d434944'')]
       (js ''hash'')
     = Some (hex (concat_mac (concat_mac (utf8 (js ''WebAppData'')) (utf8 (js ''S2'')))
          (utf8 (check_string
             [(js ''a'', js ''1''), (js ''client_id'', js ''CID''),
              (js ''hash'', js ''576562417070446174615332613d310a636c69656e745f69643d434944'')]))))"
  using two_step_derivation [of example_env "js ''S1''"
      "Str (js ''a=1&hash=576562417070446174615331613d31'')"
      "[(js ''a'', js ''1''), (js ''hash'', js ''576562417070446174615331613d31'')]" concat_mac
      "js ''a=1&client_id=CID&hash=576562417070446174615332613d310a636c69656e745f69643d434944''"]
  by (simp add: example_env_simps run_signed parse_signed parse_reissued_example)

text \<open>
  C4, as the code has it. The check string is made of the pairs not named \<open>hash\<close>,
  stably sorted by key in the order of the keys' UTF-16 code units, each rendered as
  \<open>key=value\<close>, joined by single newlines with none at the end; with no pair left
  it is empty. Where every key is ASCII this is the specification's byte-wise order.
\<close>

theorem check_string_canonical:
  "check_string ps = join [0x0A] (map line (sort_key fst (params_delete ps (js ''hash''))))
   \<and> sorted (map fst (sort_key fst (params_delete ps (js ''hash''))))
   \<and> mset (sort_key fst (params_delete ps (js ''hash''))) = mset (params_delete ps (js ''hash''))
   \<and> (\<forall>k. filter (\<lambda>p. fst p = k) (sort_key fst (params_delete ps (js ''hash'')))
          = filter (\<lambda>p. fst p = k) (params_delete ps (js ''hash'')))
   \<and> (\<forall>p \<in> set (params_delete ps (js ''hash'')). fst p \<noteq> js ''hash'')
   \<and> (params_delete ps (js ''hash'') = [] \<longrightarrow> check_string ps = [])
   \<and> (ascii_keys ps \<longrightarrow> check_string ps = canonical_bytewise ps)"
proof (intro conjI)
  show "ascii_keys ps \<longrightarrow> check_string ps = canonical_bytewise ps"
    by (simp add: check_string_bytewise_ascii)
qed (simp_all add: check_string_join sort_key_stable params_delete_def)

text \<open>
  The order is not byte-wise in general: the key U+FB03 sorts after the key U+1F308
  by code units (0xFB03 against the surrogate 0xD83C), and before it by UTF-8 bytes
  (0xEF against 0xF0).
\<close>

theorem check_string_canonical_counterexample:
  "check_string [([0xFB03], js ''1''), ([0xD83C, 0xDF08], js ''2'')]
     = [0xD83C, 0xDF08] @ js ''=2'' @ [0x0A] @ [0xFB03] @ js ''=1''
   \<and> canonical_bytewise [([0xFB03], js ''1''), ([0xD83C, 0xDF08], js ''2'')]
     = [0xFB03] @ js ''=1'' @ [0x0A] @ [0xD83C, 0xDF08] @ js ''=2''
   \<and> check_string [([0xFB03], js ''1''), ([0xD83C, 0xDF08], js ''2'')]
     \<noteq> canonical_bytewise [([0xFB03], js ''1''), ([0xD83C, 0xDF08], js ''2'')]"
  by (simp add: check_string_join canonical_bytewise_def params_delete_def line_def js_def
      utf8_def utf8_enc_cp_def lone_def is_high_def is_low_def)

theorem check_string_canonical_witness:
  "check_string [(js ''b'', js ''2''), (js ''hash'', js ''00''), (js ''a'', js ''1'')]
     = js ''a=1'' @ [0x0A] @ js ''b=2''
   \<and> check_string [(js ''hash'', js ''00'')] = []
   \<and> canonical_bytewise [(js ''b'', js ''2''), (js ''hash'', js ''00''), (js ''a'', js ''1'')]
     = js ''a=1'' @ [0x0A] @ js ''b=2''"
proof -
  let ?ps = "[(js ''b'', js ''2''), (js ''hash'', js ''00''), (js ''a'', js ''1'')]"
  have a: "ascii_keys ?ps" by (simp add: ascii_keys_def js_def)
  have d: "params_delete [(js ''hash'', js ''00'')] (js ''hash'') = []"
    by (simp add: params_delete_def)
  have s: "join [0x0A] (map line (sort_key fst (params_delete ?ps (js ''hash''))))
      = js ''a=1'' @ [0x0A] @ js ''b=2''"
    by (simp add: params_delete_def line_def js_def)
  from check_string_canonical [of ?ps]
  have c1: "check_string ?ps = join [0x0A] (map line (sort_key fst (params_delete ?ps (js ''hash''))))"
    and c2: "ascii_keys ?ps \<longrightarrow> check_string ?ps = canonical_bytewise ?ps"
    by blast+
  from c1 c2 a s
  have "check_string ?ps = js ''a=1'' @ [0x0A] @ js ''b=2''"
    and "canonical_bytewise ?ps = js ''a=1'' @ [0x0A] @ js ''b=2''"
    by (simp_all only:)
  moreover from check_string_canonical [of "[(js ''hash'', js ''00'')]"] d
  have "check_string [(js ''hash'', js ''00'')] = []" by blast
  ultimately show ?thesis by blast
qed

text \<open>
  C5, as the code has it. Two collections give the same check string when, for every
  key other than \<open>hash\<close>, the pairs of that key are the same and in the same order;
  in particular when they hold the same pairs and no key other than \<open>hash\<close> occurs
  twice.
\<close>

theorem check_string_order:
  "((\<forall>k. k \<noteq> js ''hash'' \<longrightarrow> filter (\<lambda>p. fst p = k) ps = filter (\<lambda>p. fst p = k) qs)
      \<longrightarrow> check_string ps = check_string qs)
   \<and> (mset ps = mset qs \<and> distinct (map fst (params_delete ps (js ''hash'')))
      \<longrightarrow> check_string ps = check_string qs)"
proof (intro conjI impI)
  assume a: "\<forall>k. k \<noteq> js ''hash'' \<longrightarrow> filter (\<lambda>p. fst p = k) ps = filter (\<lambda>p. fst p = k) qs"
  have "sort_key fst (params_delete ps (js ''hash'')) = sort_key fst (params_delete qs (js ''hash''))"
    by (rule sort_key_same) (simp add: filter_key_delete a)
  then show "check_string ps = check_string qs" by (simp add: check_string_join)
next
  assume b: "mset ps = mset qs \<and> distinct (map fst (params_delete ps (js ''hash'')))"
  then have m: "mset (params_delete ps (js ''hash'')) = mset (params_delete qs (js ''hash''))"
    by (simp add: params_delete_def)
  from b have d: "distinct (map fst (params_delete ps (js ''hash'')))" by blast
  have "sort_key fst (params_delete ps (js ''hash'')) = sort_key fst (params_delete qs (js ''hash''))"
    by (rule sort_key_same) (rule distinct_keys_filter [OF m d])
  then show "check_string ps = check_string qs" by (simp add: check_string_join)
qed

text \<open>
  Pairs that share a key keep their input order, so the same pairs in another order
  can give another check string.
\<close>

theorem check_string_order_counterexample:
  "mset [(js ''a'', js ''1''), (js ''a'', js ''2'')] = mset [(js ''a'', js ''2''), (js ''a'', js ''1'')]
   \<and> check_string [(js ''a'', js ''1''), (js ''a'', js ''2'')] = js ''a=1'' @ [0x0A] @ js ''a=2''
   \<and> check_string [(js ''a'', js ''2''), (js ''a'', js ''1'')] = js ''a=2'' @ [0x0A] @ js ''a=1''
   \<and> check_string [(js ''a'', js ''1''), (js ''a'', js ''2'')]
     \<noteq> check_string [(js ''a'', js ''2''), (js ''a'', js ''1'')]"
  by (simp add: check_string_join params_delete_def line_def js_def)

theorem check_string_order_witness:
  "check_string [(js ''b'', js ''2''), (js ''a'', js ''1'')]
     = check_string [(js ''a'', js ''1''), (js ''b'', js ''2'')]
   \<and> check_string [(js ''a'', js ''1''), (js ''b'', js ''2''), (js ''a'', js ''3'')]
     = check_string [(js ''a'', js ''1''), (js ''a'', js ''3''), (js ''b'', js ''2'')]"
proof -
  have 1: "mset [(js ''b'', js ''2''), (js ''a'', js ''1'')] = mset [(js ''a'', js ''1''), (js ''b'', js ''2'')]
      \<and> distinct (map fst (params_delete [(js ''b'', js ''2''), (js ''a'', js ''1'')] (js ''hash'')))"
    by (simp add: params_delete_def js_def)
  have 2: "\<forall>k. k \<noteq> js ''hash'' \<longrightarrow>
      filter (\<lambda>p. fst p = k) [(js ''a'', js ''1''), (js ''b'', js ''2''), (js ''a'', js ''3'')]
      = filter (\<lambda>p. fst p = k) [(js ''a'', js ''1''), (js ''a'', js ''3''), (js ''b'', js ''2'')]"
    by (simp add: js_def)
  show ?thesis
    using check_string_order [of "[(js ''b'', js ''2''), (js ''a'', js ''1'')]"
        "[(js ''a'', js ''1''), (js ''b'', js ''2'')]"]
      check_string_order [of "[(js ''a'', js ''1''), (js ''b'', js ''2''), (js ''a'', js ''3'')]"
        "[(js ''a'', js ''1''), (js ''a'', js ''3''), (js ''b'', js ''2'')]"]
      1 2
    by blast
qed

text \<open>
  C6, as the code has it. Every input string decodes into pairs of well-formed strings:
  the parser of Node.js does not fail. What \<open>decodeURIComponent\<close> rejects is decoded
  byte by byte instead, a percent sign that starts no escape is kept as it is, and
  bytes that are not UTF-8 become U+FFFD. With both secrets configured no input string
  is answered with the 500 response, and a string whose \<open>hash\<close> value does not
  verify is answered with the 401 response, whatever its form. The handler has no
  rejection of its own for malformed input.
\<close>

theorem undecodable_input:
  "(\<exists>ps. URLSearchParams (Str s) = Inr ps \<and> all_well_formed ps)
   \<and> (BOT_TOKEN e = Some tok \<and> CLIENT_SECRET e = Some cs
      \<longrightarrow> verifyInitData h e (Some (Str s)) \<noteq> ServerError)
   \<and> (BOT_TOKEN e = Some tok \<and> \<not> verify h tok (Str s)
      \<longrightarrow> verifyInitData h e (Some (Str s)) = InvalidInitData)"
  using all_well_formed_from_string [of s]
  by (auto simp: verifyInitData_eq URLSearchParams_Str verify_def)

text \<open>
  The specification's example of malformed input, an unparsable percent-escape, is
  decoded and rejected as an invalid signature. A component with an escape that
  \<open>decodeURIComponent\<close> rejects loses the high bits of its other code units, and
  escaped bytes that are not UTF-8 are replaced.
\<close>

theorem undecodable_input_counterexample:
  "bad_escape (js ''a=%zz'')
   \<and> URLSearchParams (Str (js ''a=%zz'')) = Inr [(js ''a'', js ''%zz'')]
   \<and> (\<forall>h. verifyInitData h example_env (Some (Str (js ''a=%zz''))) = InvalidInitData)
   \<and> URLSearchParams (Str (0x141 # js ''%41%zz=1'')) = Inr [(js ''AA%zz'', js ''1'')]
   \<and> URLSearchParams (Str (0xE9 # js ''%FF=1'')) = Inr [([0xFFFD, 0xFFFD], js ''1'')]"
proof -
  have "bad_escape (js ''a=%zz'')"
    by (simp add: js_def is_hex_def)
  then show ?thesis
    using not_verify_bad_escape
    by (simp add: parse_bad_escape parse_truncated parse_not_utf8 verifyInitData_eq
        example_env_simps verify_def)
qed

theorem undecodable_input_witness:
  "URLSearchParams (Str (js ''a=%zz'')) = Inr [(js ''a'', js ''%zz'')]
   \<and> all_well_formed [(js ''a'', js ''%zz'')]
   \<and> verifyInitData concat_mac example_env (Some (Str (js ''a=%zz''))) \<noteq> ServerError
   \<and> verifyInitData concat_mac example_env (Some (Str (js ''a=%zz''))) = InvalidInitData"
  using undecodable_input [of "js ''a=%zz''" example_env "js ''S1''" "js ''S2''" concat_mac]
    not_verify_bad_escape [of concat_mac "js ''S1''"]
  by (simp add: example_env_simps parse_bad_escape)

text \<open>
  C7, as the code has it. The handler checks no configuration value. It answers with
  the 500 response exactly when the request has no body, or \<open>new URLSearchParams\<close>
  throws, or the bot token is absent, or the credential verifies and the client secret
  is absent (an exception of \<open>update\<close>, caught). The constructor throws for no
  string; it throws for an array with an element that is not an array of two values
  that convert to strings. A successful response implies that both secrets are
  present. The 500 response differs from the 401 rejection.
\<close>

theorem server_error_iff:
  "(verifyInitData h e (Some v) = ServerError)
     = ((\<exists>error. URLSearchParams v = Inl error)
        \<or> BOT_TOKEN e = None
        \<or> (\<exists>tok. BOT_TOKEN e = Some tok \<and> verify h tok v \<and> CLIENT_SECRET e = None))
   \<and> (verifyInitData h e (Some v) = Success out
        \<longrightarrow> BOT_TOKEN e \<noteq> None \<and> CLIENT_SECRET e \<noteq> None)
   \<and> verifyInitData h e None = ServerError
   \<and> (\<forall>s. \<exists>ps. URLSearchParams (Str s) = Inr ps)
   \<and> ((\<exists>error. URLSearchParams (Array xs) = Inl error)
        = (\<exists>x \<in> set xs. \<forall>n w typedName typedValue.
              x = Array [n, w] \<longrightarrow> ToString n = Inr typedName \<longrightarrow> ToString w \<noteq> Inr typedValue))
   \<and> status ServerError = 500 \<and> status InvalidInitData = 401"
proof (intro conjI)
  show "verifyInitData h e None = ServerError"
    by (simp add: verifyInitData_def try_block_def)
  show "\<forall>s. \<exists>ps. URLSearchParams (Str s) = Inr ps"
    by (simp add: URLSearchParams_Str)
  have t: "(\<exists>error. sequence ys = Inl error) = (\<exists>y \<in> set ys. \<exists>error. y = Inl error)"
    for ys :: "(exn + jsstring \<times> jsstring) list"
    by (induction ys) (auto split: sum.splits)
  have f: "(\<exists>error. from_pair x = Inl error)
      = (\<forall>n w typedName typedValue.
            x = Array [n, w] \<longrightarrow> ToString n = Inr typedName \<longrightarrow> ToString w \<noteq> Inr typedValue)"
    for x
    by (auto simp: from_pair_def split: jsvalue.splits list.splits sum.splits)
  show "(\<exists>error. URLSearchParams (Array xs) = Inl error)
      = (\<exists>x \<in> set xs. \<forall>n w typedName typedValue.
            x = Array [n, w] \<longrightarrow> ToString n = Inr typedName \<longrightarrow> ToString w \<noteq> Inr typedValue)"
    unfolding f [symmetric] by (simp add: URLSearchParams_def t)
qed (auto simp: verifyInitData_eq verify_def status_def split: option.splits sum.splits)

text \<open>
  Empty values are used as they are, an absent client secret goes unnoticed when the
  signature is invalid, and an absent client identifier is appended as the text
  \<open>undefined\<close>.
\<close>

theorem server_error_iff_counterexample:
  "(\<forall>h. verifyInitData h \<lparr>BOT_TOKEN = Some [], CLIENT_ID = Some [], CLIENT_SECRET = Some []\<rparr>
          (Some (Str (js ''a=1''))) = InvalidInitData)
   \<and> (\<forall>h. verifyInitData h \<lparr>BOT_TOKEN = Some (js ''S1''), CLIENT_ID = None, CLIENT_SECRET = None\<rparr>
          (Some (Str (js ''a=1''))) = InvalidInitData)
   \<and> (\<forall>h. verifyInitData h
          \<lparr>BOT_TOKEN = Some (js ''S1''), CLIENT_ID = None, CLIENT_SECRET = Some (js ''S2'')\<rparr>
          (Some (Str (js ''a=1&hash='' @ sign h (js ''a=1'') (derive_key h (js ''S1'')))))
        = Success (js ''a=1&client_id=undefined&hash=''
            @ sign h (js ''a=1'' @ [0x0A] @ js ''client_id=undefined'') (derive_key h (js ''S2''))))"
proof (intro conjI allI)
  fix h :: hmac
  show "verifyInitData h \<lparr>BOT_TOKEN = Some [], CLIENT_ID = Some [], CLIENT_SECRET = Some []\<rparr>
          (Some (Str (js ''a=1''))) = InvalidInitData"
    using not_verify_a1 by (simp add: verifyInitData_eq parse_a1 verify_def)
  show "verifyInitData h \<lparr>BOT_TOKEN = Some (js ''S1''), CLIENT_ID = None, CLIENT_SECRET = None\<rparr>
          (Some (Str (js ''a=1''))) = InvalidInitData"
    using not_verify_a1 by (simp add: verifyInitData_eq parse_a1 verify_def)
  let ?e = "\<lparr>BOT_TOKEN = Some (js ''S1''), CLIENT_ID = None, CLIENT_SECRET = Some (js ''S2'')\<rparr>"
  have u: "to_usv (to_string (CLIENT_ID ?e)) = js ''undefined''"
    using well_formed_literals(8) by (simp add: to_string_def well_formed_def)
  have "verifyInitData h ?e
      (Some (Str (js ''a=1&hash='' @ sign h (js ''a=1'') (derive_key h (js ''S1'')))))
    = Success (params_toString [(js ''a'', js ''1''), (js ''client_id'', js ''undefined'')]
        @ js ''&hash=''
        @ sign h (js ''a=1'' @ 0x0A # js ''client_id='' @ js ''undefined'') (derive_key h (js ''S2'')))"
  proof (rule run_a1 [OF parse_a1_hash _ _ _ _ u])
    show "params_delete [(js ''a'', js ''1''),
        (js ''hash'', sign h (js ''a=1'') (derive_key h (js ''S1'')))] (js ''hash'')
      = [(js ''a'', js ''1'')]"
      by (simp add: params_delete_def js_def)
  qed (simp_all add: get_hash_a1)
  then show "verifyInitData h ?e
          (Some (Str (js ''a=1&hash='' @ sign h (js ''a=1'') (derive_key h (js ''S1'')))))
        = Success (js ''a=1&client_id=undefined&hash=''
            @ sign h (js ''a=1'' @ [0x0A] @ js ''client_id=undefined'') (derive_key h (js ''S2'')))"
    by (simp add: toString_a1_undefined) (simp add: js_def)
qed

theorem server_error_iff_witness:
  "verifyInitData concat_mac \<lparr>BOT_TOKEN = None, CLIENT_ID = Some (js ''CID''), CLIENT_SECRET = Some (js ''S2'')\<rparr>
       (Some (Str (js ''a=1''))) = ServerError
   \<and> verifyInitData concat_mac
       \<lparr>BOT_TOKEN = Some (js ''S1''), CLIENT_ID = Some (js ''CID''), CLIENT_SECRET = None\<rparr>
       (Some (Str (js ''a=1&hash=576562417070446174615331613d31''))) = ServerError
   \<and> verifyInitData concat_mac example_env None = ServerError
   \<and> verifyInitData concat_mac example_env (Some (Array [Array [Str (js ''a'')]])) = ServerError
   \<and> verifyInitData concat_mac example_env
       (Some (Array [Array [Str (js ''a''), Number (js ''1'')]])) = InvalidInitData
   \<and> verifyInitData concat_mac example_env
       (Some (Str (js ''a=1&hash=576562417070446174615331613d31'')))
     = Success (js ''a=1&client_id=CID&hash=576562417070446174615332613d310a636c69656e745f69643d434944'')
   \<and> BOT_TOKEN example_env \<noteq> None \<and> CLIENT_SECRET example_env \<noteq> None"
proof -
  have n: "\<not> verify concat_mac (js ''S1'') (Array [Array [Str (js ''a''), Number (js ''1'')]])"
    unfolding verify_pairs [OF parse_pairs] by (simp add: verify_pairs_def params_get_def js_def)
  have i: "verifyInitData concat_mac example_env
       (Some (Array [Array [Str (js ''a''), Number (js ''1'')]])) = InvalidInitData"
    using n by (simp add: verifyInitData_eq parse_pairs example_env_simps verify_def)
  show ?thesis
    using server_error_iff [of concat_mac
        "\<lparr>BOT_TOKEN = None, CLIENT_ID = Some (js ''CID''), CLIENT_SECRET = Some (js ''S2'')\<rparr>"
        "Str (js ''a=1'')"]
      server_error_iff [of concat_mac
        "\<lparr>BOT_TOKEN = Some (js ''S1''), CLIENT_ID = Some (js ''CID''), CLIENT_SECRET = None\<rparr>"
        "Str (js ''a=1&hash=576562417070446174615331613d31'')"]
      server_error_iff [of concat_mac example_env
        "Str (js ''a=1&hash=576562417070446174615331613d31'')"
        "js ''a=1&client_id=CID&hash=576562417070446174615332613d310a636c69656e745f69643d434944''"]
      server_error_iff [of concat_mac example_env "Array [Array [Str (js ''a'')]]"]
      verify_signed run_signed i
    by (simp add: parse_not_pairs)
qed




text \<open>
  C9, as the code has it. The pairs of a returned credential are, as a multiset, the
  pairs of the input without every pair named \<open>hash\<close>, one \<open>client_id\<close> pair and
  one \<open>hash\<close> pair holding the new signature. For an input with exactly one \<open>hash\<close>
  pair that is: the input's pairs minus that pair, plus the two new ones. The value of
  the \<open>client_id\<close> pair is the environment's \<open>CLIENT_ID\<close> as \<open>append\<close> converts
  it.
\<close>

theorem reissue_frame:
  assumes "verifyInitData h e (Some v) = Success out"
  shows "\<exists>ps cs qs. URLSearchParams v = Inr ps \<and> CLIENT_SECRET e = Some cs
      \<and> URLSearchParams (Str out) = Inr qs
      \<and> mset qs
          = mset (filter (\<lambda>p. fst p \<noteq> js ''hash'') ps)
            + {#(js ''client_id'', to_usv (to_string (CLIENT_ID e)))#}
            + {#(js ''hash'', sign h (check_string qs) (derive_key h cs))#}
      \<and> (\<forall>old. filter (\<lambda>p. fst p = js ''hash'') ps = [(js ''hash'', old)] \<longrightarrow>
            mset qs
              = mset ps - {#(js ''hash'', old)#}
                + {#(js ''client_id'', to_usv (to_string (CLIENT_ID e)))#}
                + {#(js ''hash'', sign h (check_string qs) (derive_key h cs))#})"
proof -
  from success_parse [OF assms] obtain ps cs where
    ps: "URLSearchParams v = Inr ps"
    and cs: "CLIENT_SECRET e = Some cs"
    and p: "URLSearchParams (Str out) = Inr (augmented e ps
         @ [(js ''hash'', sign h (dataCheckString (augmented e ps)) (derive_key h cs))])"
    by blast
  let ?qs = "augmented e ps
      @ [(js ''hash'', sign h (dataCheckString (augmented e ps)) (derive_key h cs))]"
  have c: "check_string ?qs = dataCheckString (augmented e ps)"
    by (rule check_string_reissued)
  have m: "mset ?qs
          = mset (filter (\<lambda>p. fst p \<noteq> js ''hash'') ps)
            + {#(js ''client_id'', to_usv (to_string (CLIENT_ID e)))#}
            + {#(js ''hash'', sign h (check_string ?qs) (derive_key h cs))#}"
    unfolding c by (simp add: mset_augmented params_delete_def)
  have "mset ?qs
        = mset ps - {#(js ''hash'', old)#}
          + {#(js ''client_id'', to_usv (to_string (CLIENT_ID e)))#}
          + {#(js ''hash'', sign h (check_string ?qs) (derive_key h cs))#}"
    if "filter (\<lambda>p. fst p = js ''hash'') ps = [(js ''hash'', old)]" for old
    using m mset_delete_single [OF that] by (simp add: params_delete_def)
  with ps cs p m show ?thesis
    by (intro exI [of _ ps] exI [of _ cs] exI [of _ ?qs]) blast
qed

text \<open>
  The verified \<open>hash\<close> pair is the first one; \<open>delete\<close> removes every pair of that
  name. For an input with a second \<open>hash\<close> pair the returned credential is not the
  input minus its verified \<open>hash\<close> pair plus the two new pairs: the second pair is
  dropped as well.
\<close>

theorem reissue_frame_counterexample:
  "\<forall>h. verifyInitData h example_env
          (Some (Str (js ''hash='' @ sign h (js ''a=1'') (derive_key h (js ''S1''))
             @ js ''&a=1&hash=junk'')))
        = Success (js ''a=1&client_id=CID&hash=''
            @ sign h (js ''a=1'' @ [0x0A] @ js ''client_id=CID'') (derive_key h (js ''S2'')))
      \<and> URLSearchParams (Str (js ''hash='' @ sign h (js ''a=1'') (derive_key h (js ''S1''))
             @ js ''&a=1&hash=junk''))
          = Inr [(js ''hash'', sign h (js ''a=1'') (derive_key h (js ''S1''))),
                 (js ''a'', js ''1''), (js ''hash'', js ''junk'')]
      \<and> URLSearchParams (Str (js ''a=1&client_id=CID&hash=''
            @ sign h (js ''a=1'' @ [0x0A] @ js ''client_id=CID'') (derive_key h (js ''S2''))))
          = Inr [(js ''a'', js ''1''), (js ''client_id'', js ''CID''),
                 (js ''hash'', sign h (js ''a=1'' @ [0x0A] @ js ''client_id=CID'')
                    (derive_key h (js ''S2'')))]
      \<and> mset [(js ''a'', js ''1''), (js ''client_id'', js ''CID''),
                 (js ''hash'', sign h (js ''a=1'' @ [0x0A] @ js ''client_id=CID'')
                    (derive_key h (js ''S2'')))]
          \<noteq> mset [(js ''hash'', sign h (js ''a=1'') (derive_key h (js ''S1''))),
                   (js ''a'', js ''1''), (js ''hash'', js ''junk'')]
              - {#(js ''hash'', sign h (js ''a=1'') (derive_key h (js ''S1'')))#}
              + {#(js ''client_id'', js ''CID'')#}
              + {#(js ''hash'', sign h (js ''a=1'' @ [0x0A] @ js ''client_id=CID'')
                    (derive_key h (js ''S2'')))#}"
proof (intro allI conjI)
  fix h :: hmac
  let ?H1 = "sign h (js ''a=1'') (derive_key h (js ''S1''))"
  let ?m = "js ''a=1'' @ 0x0A # js ''client_id=CID''"
  let ?H2 = "sign h ?m (derive_key h (js ''S2''))"
  have m: "js ''a=1'' @ [0x0A] @ js ''client_id=CID'' = ?m" by simp
  have "verifyInitData h example_env (Some (Str (js ''hash='' @ ?H1 @ js ''&a=1&hash=junk'')))
    = Success (params_toString [(js ''a'', js ''1''), (js ''client_id'', js ''CID'')]
        @ js ''&hash=''
        @ sign h (js ''a=1'' @ 0x0A # js ''client_id='' @ js ''CID'') (derive_key h (js ''S2'')))"
  proof (rule run_a1 [OF parse_two_hashes _ _ _ _ client_id_example])
    show "params_delete [(js ''hash'', ?H1), (js ''a'', js ''1''), (js ''hash'', js ''junk'')]
        (js ''hash'') = [(js ''a'', js ''1'')]"
      by (simp add: params_delete_def js_def)
    show "params_get [(js ''hash'', ?H1), (js ''a'', js ''1''), (js ''hash'', js ''junk'')]
        (js ''hash'') = Some ?H1"
      by (simp add: params_get_def)
  qed (simp_all add: example_env_simps)
  moreover have "js ''a=1'' @ 0x0A # js ''client_id='' @ js ''CID'' = ?m" by (simp add: js_def)
  ultimately show "verifyInitData h example_env
          (Some (Str (js ''hash='' @ ?H1 @ js ''&a=1&hash=junk'')))
        = Success (js ''a=1&client_id=CID&hash=''
            @ sign h (js ''a=1'' @ [0x0A] @ js ''client_id=CID'') (derive_key h (js ''S2'')))"
    unfolding m by (simp add: toString_a1_cid) (simp add: js_def)
  show "URLSearchParams (Str (js ''hash='' @ ?H1 @ js ''&a=1&hash=junk''))
      = Inr [(js ''hash'', ?H1), (js ''a'', js ''1''), (js ''hash'', js ''junk'')]"
    by (rule parse_two_hashes)
  show "URLSearchParams (Str (js ''a=1&client_id=CID&hash=''
            @ sign h (js ''a=1'' @ [0x0A] @ js ''client_id=CID'') (derive_key h (js ''S2''))))
          = Inr [(js ''a'', js ''1''), (js ''client_id'', js ''CID''),
                 (js ''hash'', sign h (js ''a=1'' @ [0x0A] @ js ''client_id=CID'')
                    (derive_key h (js ''S2'')))]"
    by (rule parse_a1_cid_hash)
  have "size (mset [(js ''a'', js ''1''), (js ''client_id'', js ''CID''),
                 (js ''hash'', sign h (js ''a=1'' @ [0x0A] @ js ''client_id=CID'')
                    (derive_key h (js ''S2'')))])
      \<noteq> size (mset [(js ''hash'', ?H1), (js ''a'', js ''1''), (js ''hash'', js ''junk'')]
              - {#(js ''hash'', ?H1)#}
              + {#(js ''client_id'', js ''CID'')#}
              + {#(js ''hash'', sign h (js ''a=1'' @ [0x0A] @ js ''client_id=CID'')
                    (derive_key h (js ''S2'')))#})"
    by simp
  then show "mset [(js ''a'', js ''1''), (js ''client_id'', js ''CID''),
                 (js ''hash'', sign h (js ''a=1'' @ [0x0A] @ js ''client_id=CID'')
                    (derive_key h (js ''S2'')))]
          \<noteq> mset [(js ''hash'', ?H1), (js ''a'', js ''1''), (js ''hash'', js ''junk'')]
              - {#(js ''hash'', ?H1)#}
              + {#(js ''client_id'', js ''CID'')#}
              + {#(js ''hash'', sign h (js ''a=1'' @ [0x0A] @ js ''client_id=CID'')
                    (derive_key h (js ''S2'')))#}"
    by metis
qed

theorem reissue_frame_witness:
  "verifyInitData concat_mac example_env
     (Some (Str (js ''a=1&hash=576562417070446174615331613d31'')))
   = Success (js ''a=1&client_id=CID&hash=576562417070446174615332613d310a636c69656e745f69643d434944'')
   \<and> mset [(js ''a'', js ''1''), (js ''client_id'', js ''CID''),
        (js ''hash'', js ''576562417070446174615332613d310a636c69656e745f69643d434944'')]
     = mset [(js ''a'', js ''1''), (js ''hash'', js ''576562417070446174615331613d31'')]
       - {#(js ''hash'', js ''576562417070446174615331613d31'')#}
       + {#(js ''client_id'', js ''CID'')#}
       + {#(js ''hash'', js ''576562417070446174615332613d310a636c69656e745f69643d434944'')#}"
proof -
  let ?out = "js ''a=1&client_id=CID&hash=576562417070446174615332613d310a636c69656e745f69643d434944''"
  let ?inp = "[(js ''a'', js ''1''), (js ''hash'', js ''576562417070446174615331613d31'')]"
  let ?res = "[(js ''a'', js ''1''), (js ''client_id'', js ''CID''),
        (js ''hash'', js ''576562417070446174615332613d310a636c69656e745f69643d434944'')]"
  have f: "filter (\<lambda>p. fst p = js ''hash'') ?inp
      = [(js ''hash'', js ''576562417070446174615331613d31'')]"
    by (simp add: js_def)
  have s: "sign concat_mac (check_string ?res) (derive_key concat_mac (js ''S2''))
      = js ''576562417070446174615332613d310a636c69656e745f69643d434944''"
    by (simp add: check_string_a1_cid sign_a1_cid)
  from reissue_frame [OF run_signed] obtain ps cs qs where
    ps: "URLSearchParams (Str (js ''a=1&hash=576562417070446174615331613d31'')) = Inr ps"
    and cs: "CLIENT_SECRET example_env = Some cs"
    and qs: "URLSearchParams (Str ?out) = Inr qs"
    and m: "\<forall>old. filter (\<lambda>p. fst p = js ''hash'') ps = [(js ''hash'', old)] \<longrightarrow>
            mset qs
              = mset ps - {#(js ''hash'', old)#}
                + {#(js ''client_id'', to_usv (to_string (CLIENT_ID example_env)))#}
                + {#(js ''hash'', sign concat_mac (check_string qs) (derive_key concat_mac cs))#}"
    by blast
  from ps have ps': "ps = ?inp" by (simp add: parse_signed)
  from qs have qs': "qs = ?res" by (simp add: parse_reissued_example)
  from cs have cs': "cs = js ''S2''" by (simp add: example_env_simps)
  from m f have "mset ?res
      = mset ?inp - {#(js ''hash'', js ''576562417070446174615331613d31'')#}
        + {#(js ''client_id'', to_usv (to_string (CLIENT_ID example_env)))#}
        + {#(js ''hash'', sign concat_mac (check_string ?res) (derive_key concat_mac (js ''S2'')))#}"
    unfolding ps' qs' cs' by blast
  then show ?thesis unfolding client_id_example s using run_signed by blast
qed

text \<open>
  C10, as the code has it. In a returned credential the pairs other than \<open>hash\<close>
  come first, in ascending order of their keys' UTF-16 code units, pairs of one key
  in the order the input had them (the new \<open>client_id\<close> pair after the input's), and
  the new \<open>hash\<close> pair is last. Where every key of the input is ASCII the order is
  also byte-wise.
\<close>

theorem reissued_order:
  assumes "verifyInitData h e (Some v) = Success out"
  shows "\<exists>ps P H. URLSearchParams v = Inr ps
      \<and> URLSearchParams (Str out) = Inr (P @ [(js ''hash'', H)])
      \<and> (\<forall>p \<in> set P. fst p \<noteq> js ''hash'')
      \<and> sorted (map fst P)
      \<and> (\<forall>k. filter (\<lambda>p. fst p = k) P
            = filter (\<lambda>p. fst p = k)
                (filter (\<lambda>p. fst p \<noteq> js ''hash'') ps
                 @ [(js ''client_id'', to_usv (to_string (CLIENT_ID e)))]))
      \<and> (ascii_keys ps \<longrightarrow> bytewise_sorted P)"
proof -
  from success_parse [OF assms] obtain ps cs where
    ps: "URLSearchParams v = Inr ps"
    and p: "URLSearchParams (Str out) = Inr (augmented e ps
         @ [(js ''hash'', sign h (dataCheckString (augmented e ps)) (derive_key h cs))])"
    by blast
  show ?thesis
    using ps p augmented_no_hash [of e ps] augmented_sorted [of e ps]
      filter_key_augmented [of _ e ps] bytewise_sorted_augmented [of ps e]
    unfolding params_delete_def
    by (intro exI [of _ ps] exI [of _ "augmented e ps"]
        exI [of _ "sign h (dataCheckString (augmented e ps)) (derive_key h cs)"]) blast
qed

text \<open>
  With the keys U+FB03 and U+1F308 the returned pairs are in code-unit order and not
  in byte-wise order.
\<close>

theorem reissued_order_counterexample:
  "\<forall>h. verifyInitData h example_env
          (Some (Str (js ''%EF%AC%83=1&%F0%9F%8C%88=2&hash=''
             @ sign h ([0xD83C, 0xDF08] @ js ''=2'' @ [0x0A] @ [0xFB03] @ js ''=1'')
                 (derive_key h (js ''S1'')))))
        = Success (js ''client_id=CID&%F0%9F%8C%88=2&%EF%AC%83=1&hash=''
            @ sign h (js ''client_id=CID'' @ [0x0A] @ [0xD83C, 0xDF08] @ js ''=2'' @ [0x0A]
                       @ [0xFB03] @ js ''=1'')
                (derive_key h (js ''S2'')))
      \<and> URLSearchParams (Str (js ''client_id=CID&%F0%9F%8C%88=2&%EF%AC%83=1&hash=''
            @ sign h (js ''client_id=CID'' @ [0x0A] @ [0xD83C, 0xDF08] @ js ''=2'' @ [0x0A]
                       @ [0xFB03] @ js ''=1'')
                (derive_key h (js ''S2''))))
          = Inr ([(js ''client_id'', js ''CID''), ([0xD83C, 0xDF08], js ''2''), ([0xFB03], js ''1'')]
            @ [(js ''hash'',
                sign h (js ''client_id=CID'' @ [0x0A] @ [0xD83C, 0xDF08] @ js ''=2'' @ [0x0A]
                         @ [0xFB03] @ js ''=1'')
                  (derive_key h (js ''S2'')))])
      \<and> \<not> bytewise_sorted
            [(js ''client_id'', js ''CID''), ([0xD83C, 0xDF08], js ''2''), ([0xFB03], js ''1'')]"
  using run_rainbow not_bytewise_rainbow by (simp only:) simp

theorem reissued_order_witness:
  "URLSearchParams
     (Str (js ''a=1&client_id=CID&hash=576562417070446174615332613d310a636c69656e745f69643d434944''))
   = Inr ([(js ''a'', js ''1''), (js ''client_id'', js ''CID'')]
     @ [(js ''hash'', js ''576562417070446174615332613d310a636c69656e745f69643d434944'')])
   \<and> sorted (map fst [(js ''a'', js ''1''), (js ''client_id'', js ''CID'')])
   \<and> bytewise_sorted [(js ''a'', js ''1''), (js ''client_id'', js ''CID'')]"
proof -
  let ?inp = "[(js ''a'', js ''1''), (js ''hash'', js ''576562417070446174615331613d31'')]"
  have a: "ascii_keys ?inp" by (simp add: ascii_keys_def js_def)
  from reissued_order [OF run_signed] obtain ps P H where
    ps: "URLSearchParams (Str (js ''a=1&hash=576562417070446174615331613d31'')) = Inr ps"
    and p: "URLSearchParams
         (Str (js ''a=1&client_id=CID&hash=576562417070446174615332613d310a636c69656e745f69643d434944''))
        = Inr (P @ [(js ''hash'', H)])"
    and s: "sorted (map fst P)" "ascii_keys ps \<longrightarrow> bytewise_sorted P"
    by blast
  from ps have "ps = ?inp" by (simp add: parse_signed)
  with a s(2) have b: "bytewise_sorted P" by simp
  from p have "P = [(js ''a'', js ''1''), (js ''client_id'', js ''CID'')]"
    unfolding parse_reissued_example by simp
  with s(1) b show ?thesis by (simp add: parse_reissued_example)
qed

end
